theory Spec2Isabelle
  imports Main "HOL-Library.Multiset"
begin

section \<open>The instrumented binary search tree (bst.js)\<close>

subsection \<open>Data model\<close>

text \<open>
  A \<^verbatim>\<open>BSTNode\<close> object carries \<^verbatim>\<open>value\<close>, \<^verbatim>\<open>left\<close> and \<^verbatim>\<open>right\<close>; a child is
  either \<^verbatim>\<open>null\<close> or another node. Every node is created by \<^verbatim>\<open>insert\<close> and linked
  exactly once, so the object graph is a tree with exclusively owned children and is
  represented by an algebraic datatype, \<open>Null\<close> standing for \<^verbatim>\<open>null\<close>. Values are the
  integers that the callers obtain from \<^verbatim>\<open>parseInt\<close>. The selector of the field
  \<^verbatim>\<open>value\<close> is written \<open>val\<close>.
\<close>

datatype BSTNode = Null | BSTNode (val: int) (left: BSTNode) (right: BSTNode)

datatype Action = VISITED | COMPARED | MOVED_LEFT | MOVED_RIGHT | INSERTED | FOUND | NOT_FOUND

text \<open>A step object \<^verbatim>\<open>{ node, action, description }\<close>; \<open>None\<close> is the \<^verbatim>\<open>null\<close> node marker.\<close>

record step =
  node :: "int option"
  action :: Action
  description :: string

record BinarySearchTree =
  root :: BSTNode

text \<open>
  The template literals interpolate numbers. For an integer (of magnitude below
  \<open>10^21\<close>) JavaScript prints the decimal digits, with a leading minus sign when
  negative; \<open>str\<close> is that rendering.
\<close>

function str_nat :: "nat \<Rightarrow> string" where
  "str_nat n =
     (if n < 10 then [char_of (48 + n)]
      else str_nat (n div 10) @ [char_of (48 + n mod 10)])"
  by pat_completeness auto
termination
  by (relation "measure id") auto

declare str_nat.simps [simp del]

definition str :: "int \<Rightarrow> string" where
  "str i = (if i < 0 then CHR ''-'' # str_nat (nat (- i)) else str_nat (nat i))"

definition constructor :: BinarySearchTree where
  "constructor = \<lparr> root = Null \<rparr>"

subsection \<open>The step objects of insert and search\<close>

text \<open>
  One definition for each object literal pushed by \<^verbatim>\<open>insert\<close> and \<^verbatim>\<open>search\<close>; \<open>v\<close> is
  the argument \<^verbatim>\<open>value\<close> and \<open>x\<close> is \<^verbatim>\<open>current.value\<close>.
\<close>

definition inserted_root :: "int \<Rightarrow> step" where
  "inserted_root v =
     \<lparr> node = Some v, action = INSERTED,
       description = ''Inserted '' @ str v @ '' as root'' \<rparr>"

definition visiting :: "int \<Rightarrow> step" where
  "visiting x =
     \<lparr> node = Some x, action = VISITED, description = ''Visiting node '' @ str x \<rparr>"

definition comparing :: "int \<Rightarrow> int \<Rightarrow> step" where
  "comparing v x =
     \<lparr> node = Some x, action = COMPARED,
       description = ''Comparing '' @ str v @ '' with '' @ str x \<rparr>"

definition moving_left :: "int \<Rightarrow> int \<Rightarrow> step" where
  "moving_left v x =
     \<lparr> node = Some x, action = MOVED_LEFT,
       description = str v @ '' < '' @ str x @ '', moving left'' \<rparr>"

definition moving_right :: "int \<Rightarrow> int \<Rightarrow> step" where
  "moving_right v x =
     \<lparr> node = Some x, action = MOVED_RIGHT,
       description = str v @ '' > '' @ str x @ '', moving right'' \<rparr>"

definition inserted_left :: "int \<Rightarrow> int \<Rightarrow> step" where
  "inserted_left v x =
     \<lparr> node = Some v, action = INSERTED,
       description = ''Inserted '' @ str v @ '' as left child of '' @ str x \<rparr>"

definition inserted_right :: "int \<Rightarrow> int \<Rightarrow> step" where
  "inserted_right v x =
     \<lparr> node = Some v, action = INSERTED,
       description = ''Inserted '' @ str v @ '' as right child of '' @ str x \<rparr>"

definition already_exists :: "int \<Rightarrow> int \<Rightarrow> step" where
  "already_exists v x =
     \<lparr> node = Some x, action = FOUND,
       description = str v @ '' already exists, skipping'' \<rparr>"

definition tree_is_empty :: "int \<Rightarrow> step" where
  "tree_is_empty v =
     \<lparr> node = None, action = NOT_FOUND,
       description = ''Tree is empty, '' @ str v @ '' not found'' \<rparr>"

definition found :: "int \<Rightarrow> int \<Rightarrow> step" where
  "found v x =
     \<lparr> node = Some x, action = FOUND, description = ''Found '' @ str v @ ''!'' \<rparr>"

definition not_found :: "int \<Rightarrow> step" where
  "not_found v =
     \<lparr> node = None, action = NOT_FOUND,
       description = str v @ '' not found in tree'' \<rparr>"

subsection \<open>insert\<close>

text \<open>
  The \<^verbatim>\<open>while (true)\<close> loop of \<^verbatim>\<open>insert\<close>, as a recursion on \<^verbatim>\<open>current\<close>. It takes the
  steps pushed so far and returns the final steps together with the subtree at
  \<^verbatim>\<open>current\<close> after the assignment to \<^verbatim>\<open>current.left\<close> or \<^verbatim>\<open>current.right\<close>, if any.
  The loop is entered with a node and only descends into a child that is not
  \<^verbatim>\<open>null\<close>, so the equation for \<open>Null\<close> is never used by \<open>insert_val\<close>.
\<close>

fun insert_loop :: "int \<Rightarrow> BSTNode \<Rightarrow> step list \<Rightarrow> step list \<times> BSTNode" where
  "insert_loop v Null steps = (steps, Null)"
| "insert_loop v (BSTNode x l r) steps =
     (let steps = steps @ [visiting x];
          steps = steps @ [comparing v x]
      in
      if v < x then
        (let steps = steps @ [moving_left v x] in
         if l = Null then
           (steps @ [inserted_left v x], BSTNode x (BSTNode v Null Null) r)
         else
           (case insert_loop v l steps of (steps', l') \<Rightarrow> (steps', BSTNode x l' r)))
      else if v > x then
        (let steps = steps @ [moving_right v x] in
         if r = Null then
           (steps @ [inserted_right v x], BSTNode x l (BSTNode v Null Null))
         else
           (case insert_loop v r steps of (steps', r') \<Rightarrow> (steps', BSTNode x l r')))
      else
        (steps @ [already_exists v x], BSTNode x l r))"

text \<open>\<^verbatim>\<open>insert(value)\<close>: the returned steps and the tree object after the call.\<close>

definition insert_val :: "int \<Rightarrow> BinarySearchTree \<Rightarrow> step list \<times> BinarySearchTree" where
  "insert_val v this =
     (if root this = Null then
        ([inserted_root v], this\<lparr> root := BSTNode v Null Null \<rparr>)
      else
        (case insert_loop v (root this) [] of
           (steps, current) \<Rightarrow> (steps, this\<lparr> root := current \<rparr>)))"

text \<open>A sequence of \<^verbatim>\<open>insert\<close> calls on a fresh tree, as \<^verbatim>\<open>buildTree\<close> of app.js issues them.\<close>

definition inserts :: "int list \<Rightarrow> BinarySearchTree \<Rightarrow> BinarySearchTree" where
  "inserts vs this = foldl (\<lambda>t v. snd (insert_val v t)) this vs"

subsection \<open>search\<close>

text \<open>
  The loop \<^verbatim>\<open>while (current !== null)\<close> of \<^verbatim>\<open>search\<close>, with the push of the
  \<^verbatim>\<open>NOT_FOUND\<close> step that follows the loop when \<^verbatim>\<open>current\<close> has become \<^verbatim>\<open>null\<close>.
\<close>

fun search_loop :: "int \<Rightarrow> BSTNode \<Rightarrow> step list \<Rightarrow> step list" where
  "search_loop v Null steps = steps @ [not_found v]"
| "search_loop v (BSTNode x l r) steps =
     (let steps = steps @ [visiting x];
          steps = steps @ [comparing v x]
      in
      if v = x then steps @ [found v x]
      else if v < x then search_loop v l (steps @ [moving_left v x])
      else search_loop v r (steps @ [moving_right v x]))"

text \<open>\<^verbatim>\<open>search(value)\<close>: the returned steps and the tree object after the call.\<close>

definition search :: "int \<Rightarrow> BinarySearchTree \<Rightarrow> step list \<times> BinarySearchTree" where
  "search v this =
     (if root this = Null then ([tree_is_empty v], this)
      else (search_loop v (root this) [], this))"

subsection \<open>Traversals\<close>

definition moving_left_from :: "int \<Rightarrow> step" where
  "moving_left_from x =
     \<lparr> node = Some x, action = MOVED_LEFT, description = ''Moving left from '' @ str x \<rparr>"

definition moving_right_from :: "int \<Rightarrow> step" where
  "moving_right_from x =
     \<lparr> node = Some x, action = MOVED_RIGHT, description = ''Moving right from '' @ str x \<rparr>"

definition visited :: "int \<Rightarrow> step" where
  "visited x =
     \<lparr> node = Some x, action = VISITED, description = ''Visited '' @ str x \<rparr>"

text \<open>
  The helpers push onto the array \<^verbatim>\<open>steps\<close> that they are given; the model takes the
  array and returns it with the pushed steps appended.
\<close>

fun inorderHelper :: "BSTNode \<Rightarrow> step list \<Rightarrow> step list" where
  "inorderHelper Null steps = steps"
| "inorderHelper (BSTNode x l r) steps =
     (let steps = (if l \<noteq> Null then inorderHelper l (steps @ [moving_left_from x]) else steps);
          steps = steps @ [visited x]
      in if r \<noteq> Null then inorderHelper r (steps @ [moving_right_from x]) else steps)"

fun preorderHelper :: "BSTNode \<Rightarrow> step list \<Rightarrow> step list" where
  "preorderHelper Null steps = steps"
| "preorderHelper (BSTNode x l r) steps =
     (let steps = steps @ [visited x];
          steps = (if l \<noteq> Null then preorderHelper l (steps @ [moving_left_from x]) else steps)
      in if r \<noteq> Null then preorderHelper r (steps @ [moving_right_from x]) else steps)"

fun postorderHelper :: "BSTNode \<Rightarrow> step list \<Rightarrow> step list" where
  "postorderHelper Null steps = steps"
| "postorderHelper (BSTNode x l r) steps =
     (let steps = (if l \<noteq> Null then postorderHelper l (steps @ [moving_left_from x]) else steps);
          steps = (if r \<noteq> Null then postorderHelper r (steps @ [moving_right_from x]) else steps)
      in steps @ [visited x])"

definition inorderTraversal :: "BinarySearchTree \<Rightarrow> step list \<times> BinarySearchTree" where
  "inorderTraversal this = (inorderHelper (root this) [], this)"

definition preorderTraversal :: "BinarySearchTree \<Rightarrow> step list \<times> BinarySearchTree" where
  "preorderTraversal this = (preorderHelper (root this) [], this)"

definition postorderTraversal :: "BinarySearchTree \<Rightarrow> step list \<times> BinarySearchTree" where
  "postorderTraversal this = (postorderHelper (root this) [], this)"

subsection \<open>clear\<close>

text \<open>\<^verbatim>\<open>clear()\<close> assigns \<^verbatim>\<open>null\<close> to \<^verbatim>\<open>this.root\<close> and has no return statement.\<close>

definition clear :: "BinarySearchTree \<Rightarrow> unit \<times> BinarySearchTree" where
  "clear this = ((), this\<lparr> root := Null \<rparr>)"

section \<open>The layout (BSTVisualizer.jsx)\<close>

definition NODE_RADIUS :: nat where "NODE_RADIUS = 25"
definition HORIZONTAL_SPACING :: nat where "HORIZONTAL_SPACING = 60"
definition VERTICAL_SPACING :: nat where "VERTICAL_SPACING = 80"
definition PADDING :: nat where "PADDING = 50"

text \<open>
  The numbers of the layout are sums and products of natural numbers and of results of
  \<^verbatim>\<open>widths.get\<close>. \<^verbatim>\<open>Map.get\<close> yields \<^verbatim>\<open>undefined\<close> for a missing key, and arithmetic on
  \<^verbatim>\<open>undefined\<close> yields \<^verbatim>\<open>NaN\<close>: a layout number is \<open>Some n\<close>, or \<open>None\<close> for \<^verbatim>\<open>NaN\<close>.
\<close>

type_synonym number = "nat option"

definition num_add :: "number \<Rightarrow> number \<Rightarrow> number" where
  "num_add a b = (case a of None \<Rightarrow> None | Some m \<Rightarrow> (case b of None \<Rightarrow> None | Some n \<Rightarrow> Some (m + n)))"

definition num_mul :: "number \<Rightarrow> number \<Rightarrow> number" where
  "num_mul a b = (case a of None \<Rightarrow> None | Some m \<Rightarrow> (case b of None \<Rightarrow> None | Some n \<Rightarrow> Some (m * n)))"

text \<open>The object \<^verbatim>\<open>{ x, y, node }\<close> stored for a value, its fields prefixed.\<close>

record position =
  pos_x :: number
  pos_y :: number
  pos_node :: BSTNode

text \<open>An element \<^verbatim>\<open>{ parent, child, direction }\<close> of the edge list; a position is absent
  when \<^verbatim>\<open>positions.get\<close> yields \<^verbatim>\<open>undefined\<close>.\<close>

record edge =
  parent :: "position option"
  child :: "position option"
  direction :: string

text \<open>
  \<^verbatim>\<open>widths\<close> is a \<^verbatim>\<open>Map\<close> whose keys are node objects. The model's key is the subtree
  below the node: the width stored for a node is determined by that subtree, so nodes
  that the model identifies carry the same width.
\<close>

fun calculateWidths :: "BSTNode \<Rightarrow> (BSTNode \<rightharpoonup> nat) \<Rightarrow> nat \<times> (BSTNode \<rightharpoonup> nat)" where
  "calculateWidths Null widths = (0, widths)"
| "calculateWidths (BSTNode v l r) widths =
     (case calculateWidths l widths of (leftWidth, widths) \<Rightarrow>
      case calculateWidths r widths of (rightWidth, widths) \<Rightarrow>
        (let totalWidth = leftWidth + 1 + rightWidth
         in (totalWidth, widths(BSTNode v l r \<mapsto> totalWidth))))"

fun assignPositions ::
  "BSTNode \<Rightarrow> number \<Rightarrow> number \<Rightarrow> (BSTNode \<rightharpoonup> nat) \<Rightarrow> (int \<rightharpoonup> position) \<Rightarrow> (int \<rightharpoonup> position)"
where
  "assignPositions Null depth leftBound widths positions = positions"
| "assignPositions (BSTNode v l r) depth leftBound widths positions =
     (let leftWidth = (if l \<noteq> Null then widths l else Some 0);
          x = num_add (Some PADDING) (num_mul (num_add leftBound leftWidth) (Some HORIZONTAL_SPACING));
          y = num_add (Some PADDING) (num_mul depth (Some VERTICAL_SPACING));
          positions = positions(v \<mapsto> \<lparr> pos_x = x, pos_y = y, pos_node = BSTNode v l r \<rparr>);
          positions = assignPositions l (num_add depth (Some 1)) leftBound widths positions
      in assignPositions r (num_add depth (Some 1))
           (num_add (num_add leftBound leftWidth) (Some 1)) widths positions)"

definition computePositions :: "BSTNode \<Rightarrow> (int \<rightharpoonup> position)" where
  "computePositions root_node =
     (if root_node = Null then Map.empty
      else
        (case calculateWidths root_node Map.empty of (w, widths) \<Rightarrow>
           assignPositions root_node (Some 0) (Some 0) widths Map.empty))"

fun traverse :: "BSTNode \<Rightarrow> (int \<rightharpoonup> position) \<Rightarrow> edge list \<Rightarrow> edge list" where
  "traverse Null positions edges = edges"
| "traverse (BSTNode v l r) positions edges =
     (let parentPos = positions v;
          edges =
            (if l \<noteq> Null then
               traverse l positions
                 (edges @ [\<lparr> parent = parentPos, child = positions (val l), direction = ''left'' \<rparr>])
             else edges)
      in
      if r \<noteq> Null then
        traverse r positions
          (edges @ [\<lparr> parent = parentPos, child = positions (val r), direction = ''right'' \<rparr>])
      else edges)"

definition collectEdges :: "BSTNode \<Rightarrow> (int \<rightharpoonup> position) \<Rightarrow> edge list" where
  "collectEdges root_node positions = traverse root_node positions []"

section \<open>Notions used by the properties\<close>

subsection \<open>The search tree property\<close>

fun values_of :: "BSTNode \<Rightarrow> int set" where
  "values_of Null = {}"
| "values_of (BSTNode x l r) = Set.insert x (values_of l \<union> values_of r)"

fun bst :: "BSTNode \<Rightarrow> bool" where
  "bst Null = True"
| "bst (BSTNode x l r) =
     ((\<forall>y \<in> values_of l. y < x) \<and> (\<forall>y \<in> values_of r. x < y) \<and> bst l \<and> bst r)"

subsection \<open>Size, shape and depth\<close>

text \<open>
  \<open>count_nodes\<close> is the number of nodes. \<open>extends t t'\<close> says that \<open>t'\<close> has every
  node of \<open>t\<close> at the same place with the same value, so \<open>t'\<close> differs from \<open>t\<close> only by
  nodes attached where \<open>t\<close> has \<^verbatim>\<open>null\<close>. \<open>at_depth t v d\<close> says that a node with
  value \<open>v\<close> lies \<open>d\<close> links below the root of \<open>t\<close>. A step is \<open>terminal\<close> when its
  action reports the outcome of an operation.
\<close>

fun count_nodes :: "BSTNode \<Rightarrow> nat" where
  "count_nodes Null = 0"
| "count_nodes (BSTNode x l r) = count_nodes l + 1 + count_nodes r"

fun extends :: "BSTNode \<Rightarrow> BSTNode \<Rightarrow> bool" where
  "extends Null t' = True"
| "extends (BSTNode x l r) Null = False"
| "extends (BSTNode x l r) (BSTNode x' l' r') = (x = x' \<and> extends l l' \<and> extends r r')"

fun at_depth :: "BSTNode \<Rightarrow> int \<Rightarrow> nat \<Rightarrow> bool" where
  "at_depth Null v d = False"
| "at_depth (BSTNode x l r) v d =
     (case d of 0 \<Rightarrow> x = v | Suc d' \<Rightarrow> at_depth l v d' \<or> at_depth r v d')"

definition terminal :: "step \<Rightarrow> bool" where
  "terminal s = (action s = INSERTED \<or> action s = FOUND \<or> action s = NOT_FOUND)"

subsection \<open>Orders of the nodes, edges, and what a step list records\<close>

text \<open>
  The values of a tree in the three standard orders; \<open>child_pairs\<close> lists the pairs
  (value of a node, value of one of its children); \<open>edge_moves\<close> lists for every link
  the value of its upper node and the direction of the link. \<open>visited_values\<close> is the
  sequence of node fields of the \<open>VISITED\<close> steps of a step list, \<open>movements\<close> the
  sequence of node field and direction of its movement steps. \<open>precedes a b xs\<close> says
  that \<open>b\<close> occurs in \<open>xs\<close> after the first occurrence of \<open>a\<close>.
\<close>

fun inorder_values :: "BSTNode \<Rightarrow> int list" where
  "inorder_values Null = []"
| "inorder_values (BSTNode x l r) = inorder_values l @ [x] @ inorder_values r"

fun preorder_values :: "BSTNode \<Rightarrow> int list" where
  "preorder_values Null = []"
| "preorder_values (BSTNode x l r) = [x] @ preorder_values l @ preorder_values r"

fun postorder_values :: "BSTNode \<Rightarrow> int list" where
  "postorder_values Null = []"
| "postorder_values (BSTNode x l r) = postorder_values l @ postorder_values r @ [x]"

fun child_pairs :: "BSTNode \<Rightarrow> (int \<times> int) list" where
  "child_pairs Null = []"
| "child_pairs (BSTNode x l r) =
     (if l \<noteq> Null then [(x, val l)] else []) @
     (if r \<noteq> Null then [(x, val r)] else []) @
     child_pairs l @ child_pairs r"

fun edge_moves :: "BSTNode \<Rightarrow> (int option \<times> Action) list" where
  "edge_moves Null = []"
| "edge_moves (BSTNode x l r) =
     (if l \<noteq> Null then [(Some x, MOVED_LEFT)] else []) @
     (if r \<noteq> Null then [(Some x, MOVED_RIGHT)] else []) @
     edge_moves l @ edge_moves r"

definition visited_values :: "step list \<Rightarrow> int option list" where
  "visited_values steps = map node (filter (\<lambda>s. action s = VISITED) steps)"

definition movements :: "step list \<Rightarrow> (int option \<times> Action) list" where
  "movements steps =
     map (\<lambda>s. (node s, action s))
       (filter (\<lambda>s. action s = MOVED_LEFT \<or> action s = MOVED_RIGHT) steps)"

definition precedes :: "'a \<Rightarrow> 'a \<Rightarrow> 'a list \<Rightarrow> bool" where
  "precedes a b xs = (b \<in> set (tl (dropWhile (\<lambda>y. y \<noteq> a) xs)))"

subsection \<open>The layout as the specification words it\<close>

text \<open>
  \<open>width\<close> is the subtree width of the specification:
  \<open>width(node) = width(left) + 1 + width(right)\<close>, and 0 for an absent node.
  \<open>placements t depth leftBound\<close> lists every node of \<open>t\<close> with the depth and the left
  bound at which the position pass reaches it: the left child with the same left bound,
  the right child with \<open>leftBound + width(left) + 1\<close>, both one level deeper.
  \<open>subtrees t\<close> are the nodes of \<open>t\<close>, each with what hangs below it. \<open>column\<close> reads the
  column of a value back from its x coordinate. \<open>widths_ok\<close> says that a width map
  holds the subtree width of every node of a tree.
\<close>

fun width :: "BSTNode \<Rightarrow> nat" where
  "width Null = 0"
| "width (BSTNode x l r) = width l + 1 + width r"

fun subtrees :: "BSTNode \<Rightarrow> BSTNode set" where
  "subtrees Null = {}"
| "subtrees (BSTNode x l r) = Set.insert (BSTNode x l r) (subtrees l \<union> subtrees r)"

fun placements :: "BSTNode \<Rightarrow> nat \<Rightarrow> nat \<Rightarrow> (BSTNode \<times> nat \<times> nat) list" where
  "placements Null depth leftBound = []"
| "placements (BSTNode x l r) depth leftBound =
     (BSTNode x l r, depth, leftBound) #
     placements l (depth + 1) leftBound @
     placements r (depth + 1) (leftBound + width l + 1)"

definition column :: "(int \<rightharpoonup> position) \<Rightarrow> int \<Rightarrow> nat option" where
  "column positions v =
     (case positions v of
        None \<Rightarrow> None
      | Some p \<Rightarrow>
          (case pos_x p of
             None \<Rightarrow> None
           | Some n \<Rightarrow> Some ((n - PADDING) div HORIZONTAL_SPACING)))"

definition widths_ok :: "(BSTNode \<rightharpoonup> nat) \<Rightarrow> BSTNode \<Rightarrow> bool" where
  "widths_ok widths t = (\<forall>n \<in> subtrees t. widths n = Some (width n))"

section \<open>Properties\<close>

subsection \<open>Fields of the step objects\<close>

lemma step_action [simp]:
  "action (inserted_root v) = INSERTED" "action (visiting x) = VISITED"
  "action (comparing v x) = COMPARED" "action (moving_left v x) = MOVED_LEFT"
  "action (moving_right v x) = MOVED_RIGHT" "action (inserted_left v x) = INSERTED"
  "action (inserted_right v x) = INSERTED" "action (already_exists v x) = FOUND"
  "action (tree_is_empty v) = NOT_FOUND" "action (found v x) = FOUND"
  "action (not_found v) = NOT_FOUND" "action (moving_left_from x) = MOVED_LEFT"
  "action (moving_right_from x) = MOVED_RIGHT" "action (visited x) = VISITED"
  by (simp_all add: inserted_root_def visiting_def comparing_def moving_left_def
      moving_right_def inserted_left_def inserted_right_def already_exists_def
      tree_is_empty_def found_def not_found_def moving_left_from_def
      moving_right_from_def visited_def)

lemma step_node [simp]:
  "node (inserted_root v) = Some v" "node (visiting x) = Some x"
  "node (comparing v x) = Some x" "node (moving_left v x) = Some x"
  "node (moving_right v x) = Some x" "node (inserted_left v x) = Some v"
  "node (inserted_right v x) = Some v" "node (already_exists v x) = Some x"
  "node (tree_is_empty v) = None" "node (found v x) = Some x"
  "node (not_found v) = None" "node (moving_left_from x) = Some x"
  "node (moving_right_from x) = Some x" "node (visited x) = Some x"
  by (simp_all add: inserted_root_def visiting_def comparing_def moving_left_def
      moving_right_def inserted_left_def inserted_right_def already_exists_def
      tree_is_empty_def found_def not_found_def moving_left_from_def
      moving_right_from_def visited_def)

lemma terminal_simps [simp]:
  "terminal (inserted_root v)" "\<not> terminal (visiting x)" "\<not> terminal (comparing v x)"
  "\<not> terminal (moving_left v x)" "\<not> terminal (moving_right v x)"
  "terminal (inserted_left v x)" "terminal (inserted_right v x)" "terminal (already_exists v x)"
  "terminal (tree_is_empty v)" "terminal (found v x)" "terminal (not_found v)"
  by (simp_all add: terminal_def)

subsection \<open>The loop of insert\<close>

lemma insert_loop_acc: "fst (insert_loop v t steps) = steps @ fst (insert_loop v t [])"
proof (induction t arbitrary: steps)
  case Null
  show ?case by simp
next
  case (BSTNode x l r)
  show ?case
    using BSTNode.IH(1) [of "steps @ [visiting x, comparing v x, moving_left v x]"]
      BSTNode.IH(1) [of "[visiting x, comparing v x, moving_left v x]"]
      BSTNode.IH(2) [of "steps @ [visiting x, comparing v x, moving_right v x]"]
      BSTNode.IH(2) [of "[visiting x, comparing v x, moving_right v x]"]
    by (simp add: Let_def case_prod_beta)
qed

lemma insert_loop_tree: "snd (insert_loop v t steps) = snd (insert_loop v t [])"
proof (induction t arbitrary: steps)
  case Null
  show ?case by simp
next
  case (BSTNode x l r)
  show ?case
    using BSTNode.IH(1) [of "steps @ [visiting x, comparing v x, moving_left v x]"]
      BSTNode.IH(1) [of "[visiting x, comparing v x, moving_left v x]"]
      BSTNode.IH(2) [of "steps @ [visiting x, comparing v x, moving_right v x]"]
      BSTNode.IH(2) [of "[visiting x, comparing v x, moving_right v x]"]
    by (simp add: Let_def case_prod_beta)
qed

text \<open>One round of the loop, with the accumulator factored out.\<close>

lemma insert_loop_steps_unfold:
  "fst (insert_loop v (BSTNode x l r) []) =
     [visiting x, comparing v x] @
     (if v < x then
        moving_left v x # (if l = Null then [inserted_left v x] else fst (insert_loop v l []))
      else if v > x then
        moving_right v x # (if r = Null then [inserted_right v x] else fst (insert_loop v r []))
      else [already_exists v x])"
  using insert_loop_acc [of v l "[visiting x, comparing v x, moving_left v x]"]
    insert_loop_acc [of v r "[visiting x, comparing v x, moving_right v x]"]
  by (simp add: Let_def case_prod_beta)

lemma insert_loop_tree_unfold:
  "snd (insert_loop v (BSTNode x l r) []) =
     (if v < x then BSTNode x (if l = Null then BSTNode v Null Null else snd (insert_loop v l [])) r
      else if v > x then BSTNode x l (if r = Null then BSTNode v Null Null else snd (insert_loop v r []))
      else BSTNode x l r)"
  using insert_loop_tree [of v l "[visiting x, comparing v x, moving_left v x]"]
    insert_loop_tree [of v r "[visiting x, comparing v x, moving_right v x]"]
  by (simp add: Let_def case_prod_beta)

declare insert_loop.simps(2) [simp del]

lemma insert_loop_nonempty: "t \<noteq> Null \<Longrightarrow> fst (insert_loop v t []) \<noteq> []"
  by (cases t) (simp_all add: insert_loop_steps_unfold)

lemma insert_loop_values:
  "t \<noteq> Null \<Longrightarrow> values_of (snd (insert_loop v t [])) = Set.insert v (values_of t)"
  by (induction t) (auto simp: insert_loop_tree_unfold)

lemma insert_loop_bst: "bst t \<Longrightarrow> bst (snd (insert_loop v t []))"
  by (induction t) (auto simp: insert_loop_tree_unfold insert_loop_values)

lemma insert_loop_duplicate:
  "bst t \<Longrightarrow> v \<in> values_of t \<Longrightarrow>
   snd (insert_loop v t []) = t \<and> last (fst (insert_loop v t [])) = already_exists v v"
proof (induction t)
  case Null
  then show ?case by simp
next
  case (BSTNode x l r)
  then show ?case
    by (auto simp: insert_loop_steps_unfold insert_loop_tree_unfold insert_loop_nonempty)
qed

lemma insert_loop_new_last:
  "bst t \<Longrightarrow> t \<noteq> Null \<Longrightarrow> v \<notin> values_of t \<Longrightarrow>
   action (last (fst (insert_loop v t []))) = INSERTED \<and>
   node (last (fst (insert_loop v t []))) = Some v"
proof (induction t)
  case Null
  then show ?case by simp
next
  case (BSTNode x l r)
  then show ?case
    by (auto simp: insert_loop_steps_unfold insert_loop_nonempty)
qed

lemma insert_loop_new_tree:
  "t \<noteq> Null \<Longrightarrow> v \<notin> values_of t \<Longrightarrow>
   count_nodes (snd (insert_loop v t [])) = count_nodes t + 1 \<and>
   extends t (snd (insert_loop v t []))"
proof (induction t)
  case Null
  then show ?case by simp
next
  case (BSTNode x l r)
  have refl: "extends u u" for u by (induction u) simp_all
  from BSTNode show ?case
    by (auto simp: insert_loop_tree_unfold refl)
qed


lemma at_depth_values: "at_depth t v d \<Longrightarrow> v \<in> values_of t"
  by (induction t arbitrary: d) (auto split: nat.splits)

lemma insert_loop_new_depth:
  "t \<noteq> Null \<Longrightarrow> v \<notin> values_of t \<Longrightarrow> \<exists>d. 0 < d \<and> at_depth (snd (insert_loop v t [])) v d"
proof (induction t)
  case Null
  then show ?case by simp
next
  case (BSTNode x l r)
  show ?case
  proof (cases "v < x")
    case True
    show ?thesis
    proof (cases "l = Null")
      case True
      with \<open>v < x\<close> have "at_depth (snd (insert_loop v (BSTNode x l r) [])) v (Suc 0)"
        by (simp add: insert_loop_tree_unfold)
      then show ?thesis by blast
    next
      case False
      with BSTNode obtain d where "at_depth (snd (insert_loop v l [])) v d" by auto
      with False \<open>v < x\<close> have "at_depth (snd (insert_loop v (BSTNode x l r) [])) v (Suc d)"
        by (simp add: insert_loop_tree_unfold)
      then show ?thesis by blast
    qed
  next
    case False
    with BSTNode.prems have gt: "x < v" by auto
    show ?thesis
    proof (cases "r = Null")
      case True
      with gt have "at_depth (snd (insert_loop v (BSTNode x l r) [])) v (Suc 0)"
        by (simp add: insert_loop_tree_unfold)
      then show ?thesis by blast
    next
      case False
      with BSTNode obtain d where "at_depth (snd (insert_loop v r [])) v d" by auto
      with False gt have "at_depth (snd (insert_loop v (BSTNode x l r) [])) v (Suc d)"
        by (simp add: insert_loop_tree_unfold)
      then show ?thesis by blast
    qed
  qed
qed

lemma insert_loop_new_length:
  "bst t \<Longrightarrow> t \<noteq> Null \<Longrightarrow> v \<notin> values_of t \<Longrightarrow> at_depth (snd (insert_loop v t [])) v d \<Longrightarrow>
   length (fst (insert_loop v t [])) = 3 * d + 1"
proof (induction t arbitrary: d)
  case Null
  then show ?case by simp
next
  case (BSTNode x l r)
  show ?case
  proof (cases "v < x")
    case True
    from BSTNode.prems have nr: "\<not> at_depth r v k" for k
      using at_depth_values by auto
    show ?thesis
    proof (cases "l = Null")
      case True
      with \<open>v < x\<close> BSTNode.prems nr show ?thesis
        by (auto simp: insert_loop_tree_unfold insert_loop_steps_unfold split: nat.splits)
    next
      case False
      with \<open>v < x\<close> BSTNode.prems nr obtain k where k: "d = Suc k" "at_depth (snd (insert_loop v l [])) v k"
        by (auto simp: insert_loop_tree_unfold split: nat.splits)
      with BSTNode.IH(1) [of k] False BSTNode.prems
      have "length (fst (insert_loop v l [])) = 3 * k + 1" by simp
      with False \<open>v < x\<close> k show ?thesis by (simp add: insert_loop_steps_unfold)
    qed
  next
    case False
    with BSTNode.prems have gt: "x < v" by auto
    from BSTNode.prems have nl: "\<not> at_depth l v k" for k
      using at_depth_values by auto
    show ?thesis
    proof (cases "r = Null")
      case True
      with gt BSTNode.prems nl show ?thesis
        by (auto simp: insert_loop_tree_unfold insert_loop_steps_unfold split: nat.splits)
    next
      case False
      with gt BSTNode.prems nl obtain k where k: "d = Suc k" "at_depth (snd (insert_loop v r [])) v k"
        by (auto simp: insert_loop_tree_unfold split: nat.splits)
      with BSTNode.IH(2) [of k] False BSTNode.prems
      have "length (fst (insert_loop v r [])) = 3 * k + 1" by simp
      with False gt k show ?thesis by (simp add: insert_loop_steps_unfold)
    qed
  qed
qed

lemma insert_loop_duplicate_length:
  "bst t \<Longrightarrow> at_depth t v d \<Longrightarrow> length (fst (insert_loop v t [])) = 3 * d + 3"
proof (induction t arbitrary: d)
  case Null
  then show ?case by simp
next
  case (BSTNode x l r)
  show ?case
  proof (cases "v = x")
    case True
    from BSTNode.prems True have "\<not> at_depth l v k" "\<not> at_depth r v k" for k
      using at_depth_values by fastforce+
    with BSTNode.prems True show ?thesis
      by (auto simp: insert_loop_steps_unfold split: nat.splits)
  next
    case False
    show ?thesis
    proof (cases "v < x")
      case True
      from BSTNode.prems True have "\<not> at_depth r v k" for k
        using at_depth_values by fastforce
      with BSTNode.prems False obtain k where k: "d = Suc k" "at_depth l v k"
        by (auto split: nat.splits)
      then have "l \<noteq> Null" by auto
      with BSTNode.IH(1) [of k] BSTNode.prems k True show ?thesis
        by (simp add: insert_loop_steps_unfold)
    next
      case gt: False
      from BSTNode.prems False gt have "\<not> at_depth l v k" for k
        using at_depth_values by fastforce
      with BSTNode.prems False obtain k where k: "d = Suc k" "at_depth r v k"
        by (auto split: nat.splits)
      then have "r \<noteq> Null" by auto
      with BSTNode.IH(2) [of k] BSTNode.prems k False gt show ?thesis
        by (simp add: insert_loop_steps_unfold)
    qed
  qed
qed

lemma insert_loop_terminal:
  "t \<noteq> Null \<Longrightarrow>
   length (filter terminal (fst (insert_loop v t []))) = 1 \<and> terminal (last (fst (insert_loop v t [])))"
proof (induction t)
  case Null
  then show ?case by simp
next
  case (BSTNode x l r)
  then show ?case
    by (auto simp: insert_loop_steps_unfold insert_loop_nonempty)
qed


subsection \<open>insert on the tree object\<close>

lemma insert_val_root:
  "root (snd (insert_val v this)) =
     (if root this = Null then BSTNode v Null Null else snd (insert_loop v (root this) []))"
  by (simp add: insert_val_def case_prod_beta)

lemma insert_val_steps:
  "fst (insert_val v this) =
     (if root this = Null then [inserted_root v] else fst (insert_loop v (root this) []))"
  by (simp add: insert_val_def case_prod_beta)

lemma insert_val_values:
  "values_of (root (snd (insert_val v this))) = Set.insert v (values_of (root this))"
  by (simp add: insert_val_root insert_loop_values)

lemma insert_val_bst: "bst (root this) \<Longrightarrow> bst (root (snd (insert_val v this)))"
  by (simp add: insert_val_root insert_loop_bst)

lemma inserts_snoc: "inserts (vs @ [v]) this = snd (insert_val v (inserts vs this))"
  by (simp add: inserts_def)

lemma inserts_bst: "bst (root this) \<Longrightarrow> bst (root (inserts vs this))"
  by (induction vs rule: rev_induct) (simp_all add: inserts_def insert_val_bst)

lemma inserts_values: "values_of (root (inserts vs constructor)) = set vs"
  by (induction vs rule: rev_induct)
     (simp_all add: inserts_snoc insert_val_values, simp add: inserts_def constructor_def)

subsection \<open>The loop of search\<close>

lemma search_loop_acc: "search_loop v t steps = steps @ search_loop v t []"
proof (induction t arbitrary: steps)
  case Null
  show ?case by simp
next
  case (BSTNode x l r)
  show ?case
    using BSTNode.IH(1) [of "steps @ [visiting x, comparing v x, moving_left v x]"]
      BSTNode.IH(1) [of "[visiting x, comparing v x, moving_left v x]"]
      BSTNode.IH(2) [of "steps @ [visiting x, comparing v x, moving_right v x]"]
      BSTNode.IH(2) [of "[visiting x, comparing v x, moving_right v x]"]
    by (simp add: Let_def)
qed

lemma search_loop_unfold:
  "search_loop v (BSTNode x l r) [] =
     [visiting x, comparing v x] @
     (if v = x then [found v x]
      else if v < x then moving_left v x # search_loop v l []
      else moving_right v x # search_loop v r [])"
  using search_loop_acc [of v l "[visiting x, comparing v x, moving_left v x]"]
    search_loop_acc [of v r "[visiting x, comparing v x, moving_right v x]"]
  by (simp add: Let_def)

declare search_loop.simps(2) [simp del]

lemma search_loop_nonempty: "search_loop v t [] \<noteq> []"
  by (cases t) (simp_all add: search_loop_unfold)

lemma search_loop_last:
  "bst t \<Longrightarrow> last (search_loop v t []) = (if v \<in> values_of t then found v v else not_found v)"
  by (induction t) (auto simp: search_loop_unfold search_loop_nonempty)

lemma search_loop_terminal:
  "length (filter terminal (search_loop v t [])) = 1 \<and>
   (action (last (search_loop v t [])) = FOUND \<or> action (last (search_loop v t [])) = NOT_FOUND)"
proof (induction t)
  case Null
  show ?case by simp
next
  case (BSTNode x l r)
  then show ?case
    by (auto simp: search_loop_unfold search_loop_nonempty)
qed

subsection \<open>The claims about insert and search\<close>

text \<open>
  C1. Starting from the empty tree, after every sequence of \<^verbatim>\<open>insert\<close> calls (hence
  after each call of a longer sequence) the tree satisfies the search tree property:
  at every node the values of the left subtree are strictly smaller and those of the
  right subtree strictly greater than the node's value.
\<close>

theorem insert_preserves_bst: "bst (root (inserts vs constructor))"
  by (rule inserts_bst) (simp add: constructor_def)

theorem insert_preserves_bst_witness:
  "bst (root (inserts [50, 30, 70, 20, 40] constructor))
   \<and> root (inserts [50, 30, 70, 20, 40] constructor)
       = BSTNode 50 (BSTNode 30 (BSTNode 20 Null Null) (BSTNode 40 Null Null))
                    (BSTNode 70 Null Null)"
  using insert_preserves_bst [of "[50, 30, 70, 20, 40]"]
  by (simp add: inserts_def constructor_def insert_val_root insert_loop_tree_unfold)

text \<open>
  C2. On the tree built by any sequence of \<^verbatim>\<open>insert\<close> calls, \<^verbatim>\<open>search(v)\<close> returns a
  non-empty step list. If \<open>v\<close> is among the inserted values, its last step has action
  \<open>FOUND\<close> and node \<open>v\<close>; otherwise (also on the empty tree) its last step has action
  \<open>NOT_FOUND\<close> and the \<^verbatim>\<open>null\<close> node marker.
\<close>

theorem search_after_inserts:
  "fst (search v (inserts vs constructor)) \<noteq> [] \<and>
   (v \<in> set vs \<longrightarrow>
      action (last (fst (search v (inserts vs constructor)))) = FOUND \<and>
      node (last (fst (search v (inserts vs constructor)))) = Some v) \<and>
   (v \<notin> set vs \<longrightarrow>
      action (last (fst (search v (inserts vs constructor)))) = NOT_FOUND \<and>
      node (last (fst (search v (inserts vs constructor)))) = None)"
proof -
  let ?t = "root (inserts vs constructor)"
  have b: "bst ?t" by (rule inserts_bst) (simp add: constructor_def)
  have vs: "values_of ?t = set vs" by (rule inserts_values)
  show ?thesis
  proof (cases "?t = Null")
    case True
    with vs have "set vs = {}" by simp
    with True show ?thesis by (simp add: search_def)
  next
    case False
    then show ?thesis
      using search_loop_last [OF b, of v] vs search_loop_nonempty [of v ?t]
      by (simp add: search_def)
  qed
qed


theorem search_after_inserts_witness:
  "action (last (fst (search 30 (inserts [50, 30, 70] constructor)))) = FOUND \<and>
   node (last (fst (search 30 (inserts [50, 30, 70] constructor)))) = Some 30 \<and>
   action (last (fst (search 99 (inserts [50, 30, 70] constructor)))) = NOT_FOUND \<and>
   node (last (fst (search 99 (inserts [50, 30, 70] constructor)))) = None \<and>
   map action (fst (search 99 (inserts [50, 30, 70] constructor)))
     = [VISITED, COMPARED, MOVED_RIGHT, VISITED, COMPARED, MOVED_RIGHT, NOT_FOUND]"
  using search_after_inserts [of 30 "[50, 30, 70]"] search_after_inserts [of 99 "[50, 30, 70]"]
  by (simp add: inserts_def constructor_def search_def insert_val_root insert_loop_tree_unfold
      search_loop_unfold)

text \<open>
  C3. On a search tree that holds \<open>v\<close>, \<^verbatim>\<open>insert(v)\<close> returns the tree object exactly as
  it was (the duplicate branch makes no assignment, so no node is added and no link is
  changed at any point of the call) and its non-empty step list ends in a \<open>FOUND\<close>
  step. On a search tree that does not hold \<open>v\<close>, the tree after the call has one node
  more, keeps every earlier node in its place, and holds the earlier values and \<open>v\<close>.
\<close>

theorem insert_duplicate_or_new:
  assumes "bst (root this)"
  shows "(v \<in> values_of (root this) \<longrightarrow>
            snd (insert_val v this) = this \<and>
            fst (insert_val v this) \<noteq> [] \<and>
            action (last (fst (insert_val v this))) = FOUND) \<and>
         (v \<notin> values_of (root this) \<longrightarrow>
            count_nodes (root (snd (insert_val v this))) = count_nodes (root this) + 1 \<and>
            extends (root this) (root (snd (insert_val v this))) \<and>
            values_of (root (snd (insert_val v this))) = Set.insert v (values_of (root this)))"
proof (intro conjI impI)
  assume v: "v \<in> values_of (root this)"
  then have nn: "root this \<noteq> Null" by auto
  from insert_loop_duplicate [OF assms v]
  have t: "snd (insert_loop v (root this) []) = root this"
    and l: "last (fst (insert_loop v (root this) [])) = already_exists v v" by simp_all
  from nn t show "snd (insert_val v this) = this"
    by (simp add: insert_val_def case_prod_beta)
  from nn show "fst (insert_val v this) \<noteq> []"
    by (simp add: insert_val_steps insert_loop_nonempty)
  from nn l show "action (last (fst (insert_val v this))) = FOUND"
    by (simp add: insert_val_steps)
next
  assume v: "v \<notin> values_of (root this)"
  show "count_nodes (root (snd (insert_val v this))) = count_nodes (root this) + 1"
    using insert_loop_new_tree [of "root this" v] v by (simp add: insert_val_root)
  show "extends (root this) (root (snd (insert_val v this)))"
    using insert_loop_new_tree [of "root this" v] v by (simp add: insert_val_root)
  show "values_of (root (snd (insert_val v this))) = Set.insert v (values_of (root this))"
    by (rule insert_val_values)
qed

theorem insert_duplicate_or_new_witness:
  "snd (insert_val 30 \<lparr> root = BSTNode 50 (BSTNode 30 Null Null) Null \<rparr>)
     = \<lparr> root = BSTNode 50 (BSTNode 30 Null Null) Null \<rparr> \<and>
   action (last (fst (insert_val 30 \<lparr> root = BSTNode 50 (BSTNode 30 Null Null) Null \<rparr>))) = FOUND \<and>
   count_nodes (root (snd (insert_val 70 \<lparr> root = BSTNode 50 (BSTNode 30 Null Null) Null \<rparr>))) = 3 \<and>
   root (snd (insert_val 70 \<lparr> root = BSTNode 50 (BSTNode 30 Null Null) Null \<rparr>))
     = BSTNode 50 (BSTNode 30 Null Null) (BSTNode 70 Null Null)"
  using insert_duplicate_or_new [of "\<lparr> root = BSTNode 50 (BSTNode 30 Null Null) Null \<rparr>" 30]
    insert_duplicate_or_new [of "\<lparr> root = BSTNode 50 (BSTNode 30 Null Null) Null \<rparr>" 70]
  by (simp add: insert_val_root insert_loop_tree_unfold)

text \<open>
  C4, as amended. On the empty tree \<^verbatim>\<open>insert(v)\<close> returns exactly one step, an \<open>INSERTED\<close>
  step with node \<open>v\<close>. On a non-empty search tree without \<open>v\<close> the new node is placed
  at some depth \<open>d > 0\<close> and the call returns exactly \<open>3 * d + 1\<close> steps; when \<open>v\<close> is
  already the value of a node at depth \<open>d\<close>, the call returns exactly \<open>3 * d + 3\<close> steps,
  the last one a \<open>FOUND\<close> step. (Each node on the path contributes a \<open>VISITED\<close>, a
  \<open>COMPARED\<close> and a movement or \<open>FOUND\<close> step.)
\<close>

theorem insert_step_count:
  assumes "bst (root this)"
  shows "(root this = Null \<longrightarrow>
            fst (insert_val v this) = [inserted_root v] \<and>
            length (fst (insert_val v this)) = 1 \<and>
            action (inserted_root v) = INSERTED \<and> node (inserted_root v) = Some v) \<and>
         (root this \<noteq> Null \<and> v \<notin> values_of (root this) \<longrightarrow>
            (\<exists>k. 0 < k \<and> at_depth (root (snd (insert_val v this))) v k)) \<and>
         (root this \<noteq> Null \<and> v \<notin> values_of (root this) \<and>
          at_depth (root (snd (insert_val v this))) v d \<longrightarrow>
            length (fst (insert_val v this)) = 3 * d + 1) \<and>
         (at_depth (root this) v d \<longrightarrow>
            length (fst (insert_val v this)) = 3 * d + 3 \<and>
            action (last (fst (insert_val v this))) = FOUND)"
proof (intro conjI impI)
  assume "root this = Null"
  then show "fst (insert_val v this) = [inserted_root v]" "length (fst (insert_val v this)) = 1"
    by (simp_all add: insert_val_steps)
  show "action (inserted_root v) = INSERTED" "node (inserted_root v) = Some v" by simp_all
next
  assume "root this \<noteq> Null \<and> v \<notin> values_of (root this)"
  then show "\<exists>k. 0 < k \<and> at_depth (root (snd (insert_val v this))) v k"
    using insert_loop_new_depth [of "root this" v] by (simp add: insert_val_root)
next
  assume "root this \<noteq> Null \<and> v \<notin> values_of (root this) \<and>
    at_depth (root (snd (insert_val v this))) v d"
  with assms show "length (fst (insert_val v this)) = 3 * d + 1"
    using insert_loop_new_length [of "root this" v d] by (auto simp: insert_val_root insert_val_steps)
next
  assume d: "at_depth (root this) v d"
  then have v: "v \<in> values_of (root this)" by (rule at_depth_values)
  then have nn: "root this \<noteq> Null" by auto
  from nn show "length (fst (insert_val v this)) = 3 * d + 3"
    using insert_loop_duplicate_length [OF assms d] by (simp add: insert_val_steps)
  from nn show "action (last (fst (insert_val v this))) = FOUND"
    using insert_loop_duplicate [OF assms v] by (simp add: insert_val_steps)
qed

theorem insert_step_count_witness:
  "length (fst (insert_val 50 \<lparr> root = Null \<rparr>)) = 1 \<and>
   at_depth (root (snd (insert_val 20 \<lparr> root = BSTNode 50 (BSTNode 30 Null Null) Null \<rparr>))) 20 2 \<and>
   length (fst (insert_val 20 \<lparr> root = BSTNode 50 (BSTNode 30 Null Null) Null \<rparr>)) = 3 * 2 + 1 \<and>
   at_depth (BSTNode 50 (BSTNode 30 Null Null) Null) 30 1 \<and>
   length (fst (insert_val 30 \<lparr> root = BSTNode 50 (BSTNode 30 Null Null) Null \<rparr>)) = 3 * 1 + 3 \<and>
   action (last (fst (insert_val 30 \<lparr> root = BSTNode 50 (BSTNode 30 Null Null) Null \<rparr>))) = FOUND"
proof -
  let ?T = "\<lparr> root = BSTNode 50 (BSTNode 30 Null Null) Null \<rparr>"
  have b: "bst (root ?T)" by simp
  have e: "bst (root \<lparr> root = Null \<rparr>)" by simp
  have d2: "at_depth (root (snd (insert_val 20 ?T))) 20 2"
    by (simp add: insert_val_root insert_loop_tree_unfold numeral_2_eq_2)
  have d1: "at_depth (BSTNode 50 (BSTNode 30 Null Null) Null) 30 1" by simp
  have "length (fst (insert_val 50 \<lparr> root = Null \<rparr>)) = 1"
    using insert_step_count [OF e, of 50 0] by simp
  moreover have "length (fst (insert_val 20 ?T)) = 3 * 2 + 1"
    using insert_step_count [OF b, of 20 2] d2 by simp
  moreover have "length (fst (insert_val 30 ?T)) = 3 * 1 + 3 \<and>
      action (last (fst (insert_val 30 ?T))) = FOUND"
    using insert_step_count [OF b, of 30 1] d1 by simp
  ultimately show ?thesis using d1 d2 by simp
qed

text \<open>
  The count \<open>2 * depth + 1\<close> fails: inserting 30 below the single node 50 places it at
  depth 1 and returns four steps.
\<close>

theorem insert_step_count_counterexample:
  "root \<lparr> root = BSTNode 50 Null Null \<rparr> \<noteq> Null \<and>
   at_depth (root (snd (insert_val 30 \<lparr> root = BSTNode 50 Null Null \<rparr>))) 30 1 \<and>
   length (fst (insert_val 30 \<lparr> root = BSTNode 50 Null Null \<rparr>)) \<noteq> 2 * 1 + 1 \<and>
   map action (fst (insert_val 30 \<lparr> root = BSTNode 50 Null Null \<rparr>))
     = [VISITED, COMPARED, MOVED_LEFT, INSERTED]"
  by (simp add: insert_val_root insert_val_steps insert_loop_tree_unfold insert_loop_steps_unfold)

text \<open>
  C10. For every tree and value, the steps of \<^verbatim>\<open>insert\<close> contain exactly one step that
  reports an outcome, and it is the last step; on a search tree it is \<open>FOUND\<close> when the
  value is present and \<open>INSERTED\<close> when it is new. The steps of \<^verbatim>\<open>search\<close> contain
  exactly one step that reports an outcome, it is the last step, and its action is
  \<open>FOUND\<close> or \<open>NOT_FOUND\<close>.
\<close>

theorem one_terminal_step:
  "fst (insert_val v this) \<noteq> [] \<and>
   length (filter terminal (fst (insert_val v this))) = 1 \<and>
   terminal (last (fst (insert_val v this))) \<and>
   (bst (root this) \<longrightarrow>
      action (last (fst (insert_val v this)))
        = (if v \<in> values_of (root this) then FOUND else INSERTED)) \<and>
   fst (search v this) \<noteq> [] \<and>
   length (filter terminal (fst (search v this))) = 1 \<and>
   (action (last (fst (search v this))) = FOUND \<or>
    action (last (fst (search v this))) = NOT_FOUND)"
proof (cases "root this = Null")
  case True
  then show ?thesis by (simp add: insert_val_steps search_def)
next
  case False
  have "bst (root this) \<Longrightarrow>
      action (last (fst (insert_loop v (root this) [])))
        = (if v \<in> values_of (root this) then FOUND else INSERTED)"
    using insert_loop_duplicate [of "root this" v] insert_loop_new_last [of "root this" v] False
    by auto
  with False show ?thesis
    using insert_loop_terminal [of "root this" v] search_loop_terminal [of v "root this"]
      insert_loop_nonempty [of "root this" v] search_loop_nonempty [of v "root this"]
    by (simp add: insert_val_steps search_def)
qed

theorem one_terminal_step_witness:
  "length (filter terminal (fst (insert_val 70 \<lparr> root = BSTNode 50 (BSTNode 30 Null Null) Null \<rparr>))) = 1 \<and>
   action (last (fst (insert_val 70 \<lparr> root = BSTNode 50 (BSTNode 30 Null Null) Null \<rparr>))) = INSERTED \<and>
   action (last (fst (insert_val 30 \<lparr> root = BSTNode 50 (BSTNode 30 Null Null) Null \<rparr>))) = FOUND \<and>
   length (filter terminal (fst (search 30 \<lparr> root = BSTNode 50 (BSTNode 30 Null Null) Null \<rparr>))) = 1 \<and>
   map action (fst (search 30 \<lparr> root = BSTNode 50 (BSTNode 30 Null Null) Null \<rparr>))
     = [VISITED, COMPARED, MOVED_LEFT, VISITED, COMPARED, FOUND]"
  using one_terminal_step [of 70 "\<lparr> root = BSTNode 50 (BSTNode 30 Null Null) Null \<rparr>"]
    one_terminal_step [of 30 "\<lparr> root = BSTNode 50 (BSTNode 30 Null Null) Null \<rparr>"]
  by (simp add: search_def search_loop_unfold)


subsection \<open>The traversal helpers\<close>

lemma inorderHelper_acc: "inorderHelper t steps = steps @ inorderHelper t []"
proof (induction t arbitrary: steps)
  case Null
  show ?case by simp
next
  case (BSTNode x l r)
  have l: "ys \<noteq> [] \<Longrightarrow> inorderHelper l ys = ys @ inorderHelper l []" for ys
    by (rule BSTNode.IH(1))
  have r: "ys \<noteq> [] \<Longrightarrow> inorderHelper r ys = ys @ inorderHelper r []" for ys
    by (rule BSTNode.IH(2))
  show ?case by (simp add: Let_def l r)
qed

lemma inorderHelper_push: "steps \<noteq> [] \<Longrightarrow> inorderHelper t steps = steps @ inorderHelper t []"
  by (rule inorderHelper_acc)

lemma preorderHelper_acc: "preorderHelper t steps = steps @ preorderHelper t []"
proof (induction t arbitrary: steps)
  case Null
  show ?case by simp
next
  case (BSTNode x l r)
  have l: "ys \<noteq> [] \<Longrightarrow> preorderHelper l ys = ys @ preorderHelper l []" for ys
    by (rule BSTNode.IH(1))
  have r: "ys \<noteq> [] \<Longrightarrow> preorderHelper r ys = ys @ preorderHelper r []" for ys
    by (rule BSTNode.IH(2))
  show ?case by (simp add: Let_def l r)
qed

lemma preorderHelper_push: "steps \<noteq> [] \<Longrightarrow> preorderHelper t steps = steps @ preorderHelper t []"
  by (rule preorderHelper_acc)

lemma postorderHelper_acc: "postorderHelper t steps = steps @ postorderHelper t []"
proof (induction t arbitrary: steps)
  case Null
  show ?case by simp
next
  case (BSTNode x l r)
  have l: "ys \<noteq> [] \<Longrightarrow> postorderHelper l ys = ys @ postorderHelper l []" for ys
    by (rule BSTNode.IH(1))
  have r: "ys \<noteq> [] \<Longrightarrow> postorderHelper r ys = ys @ postorderHelper r []" for ys
    by (rule BSTNode.IH(2))
  show ?case by (simp add: Let_def l r)
qed

lemma postorderHelper_push: "steps \<noteq> [] \<Longrightarrow> postorderHelper t steps = steps @ postorderHelper t []"
  by (rule postorderHelper_acc)

lemma inorderHelper_unfold:
  "inorderHelper (BSTNode x l r) [] =
     (if l \<noteq> Null then moving_left_from x # inorderHelper l [] else []) @
     [visited x] @
     (if r \<noteq> Null then moving_right_from x # inorderHelper r [] else [])"
  by (simp add: Let_def inorderHelper_push)

lemma preorderHelper_unfold:
  "preorderHelper (BSTNode x l r) [] =
     [visited x] @
     (if l \<noteq> Null then moving_left_from x # preorderHelper l [] else []) @
     (if r \<noteq> Null then moving_right_from x # preorderHelper r [] else [])"
  by (simp add: Let_def preorderHelper_push)

lemma postorderHelper_unfold:
  "postorderHelper (BSTNode x l r) [] =
     (if l \<noteq> Null then moving_left_from x # postorderHelper l [] else []) @
     (if r \<noteq> Null then moving_right_from x # postorderHelper r [] else []) @
     [visited x]"
  by (simp add: Let_def postorderHelper_push)

declare inorderHelper.simps(2) [simp del]
declare preorderHelper.simps(2) [simp del]
declare postorderHelper.simps(2) [simp del]

lemma visited_values_simps [simp]:
  "visited_values [] = []"
  "visited_values (visited x # ss) = Some x # visited_values ss"
  "visited_values (moving_left_from x # ss) = visited_values ss"
  "visited_values (moving_right_from x # ss) = visited_values ss"
  "visited_values (ss @ ts) = visited_values ss @ visited_values ts"
  by (simp_all add: visited_values_def)

lemma movements_simps [simp]:
  "movements [] = []"
  "movements (visited x # ss) = movements ss"
  "movements (moving_left_from x # ss) = (Some x, MOVED_LEFT) # movements ss"
  "movements (moving_right_from x # ss) = (Some x, MOVED_RIGHT) # movements ss"
  "movements (ss @ ts) = movements ss @ movements ts"
  by (simp_all add: movements_def)

lemma inorder_visited: "visited_values (inorderHelper t []) = map Some (inorder_values t)"
  by (induction t) (simp_all add: inorderHelper_unfold)

lemma preorder_visited: "visited_values (preorderHelper t []) = map Some (preorder_values t)"
  by (induction t) (simp_all add: preorderHelper_unfold)

lemma postorder_visited: "visited_values (postorderHelper t []) = map Some (postorder_values t)"
  by (induction t) (simp_all add: postorderHelper_unfold)

lemma inorder_movements: "mset (movements (inorderHelper t [])) = mset (edge_moves t)"
  by (induction t) (simp_all add: inorderHelper_unfold)

lemma preorder_movements: "mset (movements (preorderHelper t [])) = mset (edge_moves t)"
  by (induction t) (simp_all add: preorderHelper_unfold)

lemma postorder_movements: "mset (movements (postorderHelper t [])) = mset (edge_moves t)"
  by (induction t) (simp_all add: postorderHelper_unfold)

lemma inorder_length: "length (inorderHelper t []) = length (inorder_values t) + length (edge_moves t)"
  by (induction t) (simp_all add: inorderHelper_unfold)

lemma preorder_length: "length (preorderHelper t []) = length (inorder_values t) + length (edge_moves t)"
  by (induction t) (simp_all add: preorderHelper_unfold)

lemma postorder_length: "length (postorderHelper t []) = length (inorder_values t) + length (edge_moves t)"
  by (induction t) (simp_all add: postorderHelper_unfold)

lemma length_inorder_values: "length (inorder_values t) = count_nodes t"
  by (induction t) simp_all

lemma mset_preorder_values: "mset (preorder_values t) = mset (inorder_values t)"
  by (induction t) simp_all

lemma mset_postorder_values: "mset (postorder_values t) = mset (inorder_values t)"
  by (induction t) simp_all

lemma length_edge_moves: "t \<noteq> Null \<Longrightarrow> length (edge_moves t) + 1 = count_nodes t"
  by (induction t) auto

lemma set_inorder_values: "set (inorder_values t) = values_of t"
  by (induction t) auto

lemma bst_inorder_sorted: "bst t \<Longrightarrow> sorted (inorder_values t) \<and> distinct (inorder_values t)"
  by (induction t) (fastforce simp: sorted_append set_inorder_values)+


subsection \<open>Order of the visits\<close>

lemma precedes_iff:
  "precedes a b xs \<longleftrightarrow> (\<exists>ys zs. xs = ys @ a # zs \<and> a \<notin> set ys \<and> b \<in> set zs)"
proof
  assume p: "precedes a b xs"
  let ?ys = "takeWhile (\<lambda>y. y \<noteq> a) xs" and ?ds = "dropWhile (\<lambda>y. y \<noteq> a) xs"
  from p have "b \<in> set (tl ?ds)" by (simp add: precedes_def)
  then have ne: "?ds \<noteq> []" by (metis empty_iff list.sel(2) list.set(1))
  then have hd: "hd ?ds = a" using hd_dropWhile [of "\<lambda>y. y \<noteq> a" xs] by simp
  with ne have ds: "?ds = a # tl ?ds" by (cases ?ds) simp_all
  have "xs = ?ys @ ?ds" by simp
  with ds have "xs = ?ys @ a # tl ?ds" by simp
  moreover have "a \<notin> set ?ys" by (auto dest: set_takeWhileD)
  moreover from p have "b \<in> set (tl ?ds)" by (simp add: precedes_def)
  ultimately show "\<exists>ys zs. xs = ys @ a # zs \<and> a \<notin> set ys \<and> b \<in> set zs" by blast
next
  assume "\<exists>ys zs. xs = ys @ a # zs \<and> a \<notin> set ys \<and> b \<in> set zs"
  then obtain ys zs where xs: "xs = ys @ a # zs" and a: "a \<notin> set ys" and b: "b \<in> set zs"
    by blast
  from a have "dropWhile (\<lambda>y. y \<noteq> a) (ys @ a # zs) = a # zs"
    by (auto simp: dropWhile_append3)
  with xs b show "precedes a b xs" by (simp add: precedes_def)
qed

lemma precedes_Cons: "b \<in> set xs \<Longrightarrow> precedes a b (a # xs)"
  by (simp add: precedes_def)

lemma precedes_snoc: "a \<in> set xs \<Longrightarrow> precedes a b (xs @ [b])"
proof -
  assume "a \<in> set xs"
  then obtain ys zs where "xs = ys @ a # zs" "a \<notin> set ys"
    by (auto dest: split_list_first)
  then have "xs @ [b] = ys @ a # (zs @ [b]) \<and> a \<notin> set ys \<and> b \<in> set (zs @ [b])" by simp
  then show ?thesis unfolding precedes_iff by blast
qed

lemma precedes_embed:
  assumes "precedes a b xs" "a \<notin> set us"
  shows "precedes a b (us @ xs @ vs)"
proof -
  from assms(1) obtain ys zs where "xs = ys @ a # zs" "a \<notin> set ys" "b \<in> set zs"
    unfolding precedes_iff by blast
  with assms(2) have "us @ xs @ vs = (us @ ys) @ a # (zs @ vs) \<and> a \<notin> set (us @ ys) \<and> b \<in> set (zs @ vs)"
    by simp
  then show ?thesis unfolding precedes_iff by blast
qed

lemma set_preorder_values: "set (preorder_values t) = values_of t"
  by (induction t) auto

lemma set_postorder_values: "set (postorder_values t) = values_of t"
  by (induction t) auto

lemma child_pairs_values: "(p, c) \<in> set (child_pairs t) \<Longrightarrow> p \<in> values_of t \<and> c \<in> values_of t"
proof (induction t)
  case Null
  then show ?case by simp
next
  case (BSTNode x l r)
  have "l \<noteq> Null \<Longrightarrow> val l \<in> values_of l" by (cases l) simp_all
  moreover have "r \<noteq> Null \<Longrightarrow> val r \<in> values_of r" by (cases r) simp_all
  ultimately show ?case using BSTNode by (auto split: if_splits)
qed

lemma val_in_values: "t \<noteq> Null \<Longrightarrow> val t \<in> values_of t"
  by (cases t) simp_all

lemma preorder_parent_first:
  "bst t \<Longrightarrow> (p, c) \<in> set (child_pairs t) \<Longrightarrow> precedes p c (preorder_values t)"
proof (induction t)
  case Null
  then show ?case by simp
next
  case (BSTNode x l r)
  from BSTNode.prems(1) have bl: "bst l" and br: "bst r"
    and lx: "\<forall>y \<in> values_of l. y < x" and xr: "\<forall>y \<in> values_of r. x < y" by simp_all
  from BSTNode.prems(2) consider
      (left) "l \<noteq> Null" "p = x" "c = val l"
    | (right) "r \<noteq> Null" "p = x" "c = val r"
    | (inl) "(p, c) \<in> set (child_pairs l)"
    | (inr) "(p, c) \<in> set (child_pairs r)"
    by (auto split: if_splits)
  then show ?case
  proof cases
    case left
    then show ?thesis
      using val_in_values [of l] by (simp add: precedes_Cons set_preorder_values)
  next
    case right
    then show ?thesis
      using val_in_values [of r] by (simp add: precedes_Cons set_preorder_values)
  next
    case inl
    then have "precedes p c (preorder_values l)" using BSTNode.IH(1) bl by simp
    moreover from inl lx have "p \<notin> set [x]" using child_pairs_values [of p c l] by auto
    ultimately have "precedes p c ([x] @ preorder_values l @ preorder_values r)"
      by (rule precedes_embed)
    then show ?thesis by simp
  next
    case inr
    then have "precedes p c (preorder_values r)" using BSTNode.IH(2) br by simp
    moreover from inr lx xr have "p \<notin> set ([x] @ preorder_values l)"
      using child_pairs_values [of p c r] by (fastforce simp: set_preorder_values)
    ultimately have "precedes p c (([x] @ preorder_values l) @ preorder_values r @ [])"
      by (rule precedes_embed)
    then show ?thesis by simp
  qed
qed

lemma postorder_parent_last:
  "bst t \<Longrightarrow> (p, c) \<in> set (child_pairs t) \<Longrightarrow> precedes c p (postorder_values t)"
proof (induction t)
  case Null
  then show ?case by simp
next
  case (BSTNode x l r)
  from BSTNode.prems(1) have bl: "bst l" and br: "bst r"
    and lx: "\<forall>y \<in> values_of l. y < x" and xr: "\<forall>y \<in> values_of r. x < y" by simp_all
  from BSTNode.prems(2) consider
      (left) "l \<noteq> Null" "p = x" "c = val l"
    | (right) "r \<noteq> Null" "p = x" "c = val r"
    | (inl) "(p, c) \<in> set (child_pairs l)"
    | (inr) "(p, c) \<in> set (child_pairs r)"
    by (auto split: if_splits)
  then show ?case
  proof cases
    case left
    then have "val l \<in> set (postorder_values l @ postorder_values r)"
      using val_in_values [of l] by (simp add: set_postorder_values)
    then have "precedes (val l) x ((postorder_values l @ postorder_values r) @ [x])"
      by (rule precedes_snoc)
    with left show ?thesis by simp
  next
    case right
    then have "val r \<in> set (postorder_values l @ postorder_values r)"
      using val_in_values [of r] by (simp add: set_postorder_values)
    then have "precedes (val r) x ((postorder_values l @ postorder_values r) @ [x])"
      by (rule precedes_snoc)
    with right show ?thesis by simp
  next
    case inl
    then have "precedes c p (postorder_values l)" using BSTNode.IH(1) bl by simp
    then have "precedes c p ([] @ postorder_values l @ (postorder_values r @ [x]))"
      by (rule precedes_embed) simp
    then show ?thesis by simp
  next
    case inr
    then have "precedes c p (postorder_values r)" using BSTNode.IH(2) br by simp
    moreover from inr lx xr have "c \<notin> set (postorder_values l)"
      using child_pairs_values [of p c r] by (fastforce simp: set_postorder_values)
    ultimately have "precedes c p (postorder_values l @ postorder_values r @ [x])"
      by (rule precedes_embed)
    then show ?thesis by simp
  qed
qed

lemma precedes_map_Some: "precedes a b xs \<Longrightarrow> precedes (Some a) (Some b) (map Some xs)"
proof -
  assume "precedes a b xs"
  then obtain ys zs where "xs = ys @ a # zs" "a \<notin> set ys" "b \<in> set zs"
    unfolding precedes_iff by blast
  then have "map Some xs = map Some ys @ Some a # map Some zs \<and>
      Some a \<notin> set (map Some ys) \<and> Some b \<in> set (map Some zs)" by auto
  then show ?thesis unfolding precedes_iff by blast
qed

lemma bst_distinct_values:
  "bst t \<Longrightarrow> distinct (preorder_values t) \<and> distinct (postorder_values t)"
  using bst_inorder_sorted [of t] mset_preorder_values [of t] mset_postorder_values [of t]
  by (metis distinct_count_atmost_1 mset_eq_setD set_mset_mset)


subsection \<open>The claims about traversals and clear\<close>

text \<open>
  C5. On the tree built by any sequence of \<^verbatim>\<open>insert\<close> calls, the node values of the
  \<open>VISITED\<close> steps of \<^verbatim>\<open>inorderTraversal\<close> are, in order, the distinct inserted values
  in ascending order. In \<^verbatim>\<open>preorderTraversal\<close> every node has one \<open>VISITED\<close> step and
  the step of a node comes before the step of each of its children; in
  \<^verbatim>\<open>postorderTraversal\<close> every node has one \<open>VISITED\<close> step and the step of a node comes
  after the step of each of its children.
\<close>

theorem traversal_orders:
  "visited_values (fst (inorderTraversal (inserts vs constructor)))
     = map Some (sorted_list_of_set (set vs)) \<and>
   distinct (visited_values (fst (preorderTraversal (inserts vs constructor)))) \<and>
   (\<forall>(p, c) \<in> set (child_pairs (root (inserts vs constructor))).
      precedes (Some p) (Some c) (visited_values (fst (preorderTraversal (inserts vs constructor))))) \<and>
   distinct (visited_values (fst (postorderTraversal (inserts vs constructor)))) \<and>
   (\<forall>(p, c) \<in> set (child_pairs (root (inserts vs constructor))).
      precedes (Some c) (Some p) (visited_values (fst (postorderTraversal (inserts vs constructor)))))"
proof -
  let ?t = "root (inserts vs constructor)"
  have b: "bst ?t" by (rule inserts_bst) (simp add: constructor_def)
  have vs: "values_of ?t = set vs" by (rule inserts_values)
  from bst_inorder_sorted [OF b] have "sorted_list_of_set (set (inorder_values ?t)) = inorder_values ?t"
    by (simp add: sorted_list_of_set.idem_if_sorted_distinct)
  with vs have "visited_values (fst (inorderTraversal (inserts vs constructor)))
     = map Some (sorted_list_of_set (set vs))"
    by (simp add: inorderTraversal_def inorder_visited set_inorder_values)
  moreover have "distinct (visited_values (fst (preorderTraversal (inserts vs constructor))))"
    using bst_distinct_values [OF b]
    by (simp add: preorderTraversal_def preorder_visited distinct_map)
  moreover have "distinct (visited_values (fst (postorderTraversal (inserts vs constructor))))"
    using bst_distinct_values [OF b]
    by (simp add: postorderTraversal_def postorder_visited distinct_map)
  moreover have "\<forall>(p, c) \<in> set (child_pairs ?t).
      precedes (Some p) (Some c) (visited_values (fst (preorderTraversal (inserts vs constructor))))"
    using preorder_parent_first [OF b]
    by (auto simp: preorderTraversal_def preorder_visited intro: precedes_map_Some)
  moreover have "\<forall>(p, c) \<in> set (child_pairs ?t).
      precedes (Some c) (Some p) (visited_values (fst (postorderTraversal (inserts vs constructor))))"
    using postorder_parent_last [OF b]
    by (auto simp: postorderTraversal_def postorder_visited intro: precedes_map_Some)
  ultimately show ?thesis by blast
qed

lemma sample_tree:
  "root (inserts [50, 30, 70, 20, 40, 60, 80] constructor) =
     BSTNode 50 (BSTNode 30 (BSTNode 20 Null Null) (BSTNode 40 Null Null))
       (BSTNode 70 (BSTNode 60 Null Null) (BSTNode 80 Null Null))"
  by (simp add: inserts_def constructor_def insert_val_root insert_loop_tree_unfold)

theorem traversal_orders_witness:
  "visited_values (fst (inorderTraversal (inserts [50, 30, 70, 20, 40, 60, 80] constructor)))
     = map Some (sorted_list_of_set (set [50, 30, 70, 20, 40, 60, 80])) \<and>
   visited_values (fst (inorderTraversal (inserts [50, 30, 70, 20, 40, 60, 80] constructor)))
     = [Some 20, Some 30, Some 40, Some 50, Some 60, Some 70, Some 80] \<and>
   precedes (Some 30) (Some 40)
     (visited_values (fst (preorderTraversal (inserts [50, 30, 70, 20, 40, 60, 80] constructor)))) \<and>
   precedes (Some 40) (Some 30)
     (visited_values (fst (postorderTraversal (inserts [50, 30, 70, 20, 40, 60, 80] constructor))))"
proof -
  have "(30, 40) \<in> set (child_pairs (root (inserts [50, 30, 70, 20, 40, 60, 80] constructor)))"
    by (simp add: sample_tree)
  moreover have
    "visited_values (fst (inorderTraversal (inserts [50, 30, 70, 20, 40, 60, 80] constructor)))
       = [Some 20, Some 30, Some 40, Some 50, Some 60, Some 70, Some 80]"
    by (simp add: inorderTraversal_def sample_tree inorderHelper_unfold)
  ultimately show ?thesis
    using traversal_orders [of "[50, 30, 70, 20, 40, 60, 80]"] by fastforce
qed

subsection \<open>Counting the steps of a traversal\<close>

lemma trace_counts:
  assumes vis: "visited_values steps = map Some vs"
    and vs: "mset vs = mset (inorder_values t)"
    and mv: "mset (movements steps) = mset (edge_moves t)"
    and len: "length steps = length (inorder_values t) + length (edge_moves t)"
  shows "length (filter (\<lambda>s. action s = VISITED) steps) = count_nodes t \<and>
      mset (visited_values steps) = mset (map Some (inorder_values t)) \<and>
      mset (movements steps) = mset (edge_moves t) \<and>
      (t \<noteq> Null \<longrightarrow>
         length (movements steps) + 1 = count_nodes t \<and>
         length steps + 1 = 2 * count_nodes t) \<and>
      (t = Null \<longrightarrow> steps = [])"
proof -
  have "length (filter (\<lambda>s. action s = VISITED) steps) = length (visited_values steps)"
    by (simp add: visited_values_def)
  also have "\<dots> = length vs" by (simp add: vis)
  also have "\<dots> = length (inorder_values t)" using vs by (rule mset_eq_length)
  finally have n: "length (filter (\<lambda>s. action s = VISITED) steps) = count_nodes t"
    by (simp add: length_inorder_values)
  have "mset (map Some vs) = mset (map Some (inorder_values t))"
    using vs by (metis mset_map)
  then have m: "mset (visited_values steps) = mset (map Some (inorder_values t))"
    by (simp add: vis)
  have lm: "length (movements steps) = length (edge_moves t)"
    using mv by (rule mset_eq_length)
  have e: "t \<noteq> Null \<Longrightarrow> length (movements steps) + 1 = count_nodes t"
    using length_edge_moves [of t] lm by simp
  have e2: "t \<noteq> Null \<Longrightarrow> length steps + 1 = 2 * count_nodes t"
    using length_edge_moves [of t] len by (simp add: length_inorder_values)
  have z: "t = Null \<Longrightarrow> steps = []" using len by simp
  from n m mv e e2 z show ?thesis by blast
qed

text \<open>
  C6. For every tree with \<open>N\<close> nodes, each of the three traversals returns exactly \<open>N\<close>
  \<open>VISITED\<close> steps, one for each node, and its movement steps are exactly one for each
  link of the tree (the upper node's value with the direction of the link), which are
  \<open>N - 1\<close> when the tree is not empty; there are no other steps. On the empty tree each
  traversal returns the empty list.
\<close>

theorem traversal_step_counts:
  "(\<forall>steps \<in> {fst (inorderTraversal this), fst (preorderTraversal this),
                fst (postorderTraversal this)}.
      length (filter (\<lambda>s. action s = VISITED) steps) = count_nodes (root this) \<and>
      mset (visited_values steps) = mset (map Some (inorder_values (root this))) \<and>
      mset (movements steps) = mset (edge_moves (root this)) \<and>
      (root this \<noteq> Null \<longrightarrow>
         length (movements steps) + 1 = count_nodes (root this) \<and>
         length steps + 1 = 2 * count_nodes (root this)) \<and>
      (root this = Null \<longrightarrow> steps = []))"
proof -
  let ?t = "root this"
  note i = trace_counts [OF inorder_visited refl inorder_movements inorder_length, of ?t]
  note p = trace_counts [OF preorder_visited mset_preorder_values preorder_movements
      preorder_length, of ?t]
  note q = trace_counts [OF postorder_visited mset_postorder_values postorder_movements
      postorder_length, of ?t]
  from i p q show ?thesis
    by (simp add: inorderTraversal_def preorderTraversal_def postorderTraversal_def)
qed

theorem traversal_step_counts_witness:
  "length (filter (\<lambda>s. action s = VISITED)
     (fst (preorderTraversal \<lparr> root = BSTNode 50 (BSTNode 30 Null Null) (BSTNode 70 Null Null) \<rparr>))) = 3 \<and>
   length (movements
     (fst (preorderTraversal \<lparr> root = BSTNode 50 (BSTNode 30 Null Null) (BSTNode 70 Null Null) \<rparr>))) + 1 = 3 \<and>
   map action
     (fst (preorderTraversal \<lparr> root = BSTNode 50 (BSTNode 30 Null Null) (BSTNode 70 Null Null) \<rparr>))
     = [VISITED, MOVED_LEFT, VISITED, MOVED_RIGHT, VISITED] \<and>
   fst (postorderTraversal \<lparr> root = Null \<rparr>) = []"
  using traversal_step_counts [of "\<lparr> root = BSTNode 50 (BSTNode 30 Null Null) (BSTNode 70 Null Null) \<rparr>"]
    traversal_step_counts [of "\<lparr> root = Null \<rparr>"]
  by (simp add: preorderTraversal_def preorderHelper_unfold)

text \<open>
  C8. \<^verbatim>\<open>search\<close> and the three traversals leave the tree object as it was: after the
  call the root, and with it every node's value and children, is the same as before.
\<close>

theorem read_only_operations:
  "snd (search v this) = this \<and>
   snd (inorderTraversal this) = this \<and>
   snd (preorderTraversal this) = this \<and>
   snd (postorderTraversal this) = this"
  by (simp add: search_def inorderTraversal_def preorderTraversal_def postorderTraversal_def)

theorem read_only_operations_witness:
  "snd (search 30 (inserts [50, 30, 70] constructor)) = inserts [50, 30, 70] constructor \<and>
   root (snd (inorderTraversal (inserts [50, 30, 70] constructor)))
     = BSTNode 50 (BSTNode 30 Null Null) (BSTNode 70 Null Null)"
  using read_only_operations [of 30 "inserts [50, 30, 70] constructor"]
  by (simp add: inserts_def constructor_def insert_val_root insert_loop_tree_unfold)

text \<open>
  C9. \<^verbatim>\<open>clear()\<close> leaves the root \<^verbatim>\<open>null\<close> and returns no steps; clearing twice is the
  same as clearing once, and clearing an empty tree changes nothing. After \<^verbatim>\<open>clear()\<close>,
  \<^verbatim>\<open>insert(99)\<close> returns the single root step and leaves a tree whose only node is the
  root 99, whatever the tree was before.
\<close>

theorem clear_discards_tree:
  "root (snd (clear this)) = Null \<and>
   fst (clear this) = () \<and>
   snd (clear (snd (clear this))) = snd (clear this) \<and>
   (root this = Null \<longrightarrow> snd (clear this) = this) \<and>
   root (snd (insert_val 99 (snd (clear this)))) = BSTNode 99 Null Null \<and>
   fst (insert_val 99 (snd (clear this))) = [inserted_root 99]"
  by (simp add: clear_def insert_val_def)

theorem clear_discards_tree_witness:
  "root (snd (clear (inserts [50, 30, 70, 20, 40] constructor))) = Null \<and>
   snd (clear constructor) = constructor \<and>
   root (snd (insert_val 99 (snd (clear (inserts [50, 30, 70, 20, 40] constructor)))))
     = BSTNode 99 Null Null \<and>
   count_nodes (root (snd (insert_val 99 (snd (clear (inserts [50, 30, 70, 20, 40] constructor)))))) = 1"
  using clear_discards_tree [of "inserts [50, 30, 70, 20, 40] constructor"]
    clear_discards_tree [of constructor]
  by (simp add: constructor_def)


subsection \<open>The width pass and the position pass\<close>

lemma calculateWidths_fst: "fst (calculateWidths t w) = width t"
  by (induction t arbitrary: w) (simp_all add: case_prod_beta Let_def)

lemma subtrees_not_Null: "n \<in> subtrees t \<Longrightarrow> n \<noteq> Null"
  by (induction t) auto

lemma subtrees_size: "n \<in> subtrees t \<Longrightarrow> size n \<le> size t"
  by (induction t) auto

lemma calculateWidths_snd:
  "snd (calculateWidths t w) n = (if n \<in> subtrees t then Some (width n) else w n)"
proof (induction t arbitrary: w n)
  case Null
  show ?case by simp
next
  case (BSTNode x l r)
  have "BSTNode x l r \<notin> subtrees l" "BSTNode x l r \<notin> subtrees r"
    using subtrees_size [of "BSTNode x l r" l] subtrees_size [of "BSTNode x l r" r] by auto
  then show ?case
    by (simp add: case_prod_beta Let_def BSTNode.IH calculateWidths_fst)
qed

lemma assignPositions_unfold:
  "(if l \<noteq> Null then widths l else Some 0) = Some w \<Longrightarrow>
   assignPositions (BSTNode x l r) (Some d) (Some b) widths positions =
     assignPositions r (Some (d + 1)) (Some (b + w + 1)) widths
       (assignPositions l (Some (d + 1)) (Some b) widths
          (positions(x \<mapsto>
             \<lparr> pos_x = Some (PADDING + (b + w) * HORIZONTAL_SPACING),
               pos_y = Some (PADDING + d * VERTICAL_SPACING),
               pos_node = BSTNode x l r \<rparr>)))"
  by (simp add: Let_def num_add_def num_mul_def)

declare assignPositions.simps(2) [simp del]

lemma widths_ok_children:
  "widths_ok widths (BSTNode x l r) \<Longrightarrow>
   widths_ok widths l \<and> widths_ok widths r \<and>
   (if l \<noteq> Null then widths l else Some 0) = Some (width l)"
  by (cases l) (auto simp: widths_ok_def)

lemma assignPositions_step:
  "widths_ok widths (BSTNode x l r) \<Longrightarrow>
   assignPositions (BSTNode x l r) (Some d) (Some b) widths positions =
     assignPositions r (Some (d + 1)) (Some (b + width l + 1)) widths
       (assignPositions l (Some (d + 1)) (Some b) widths
          (positions(x \<mapsto>
             \<lparr> pos_x = Some (PADDING + (b + width l) * HORIZONTAL_SPACING),
               pos_y = Some (PADDING + d * VERTICAL_SPACING),
               pos_node = BSTNode x l r \<rparr>)))"
  using widths_ok_children [of widths x l r] by (simp add: assignPositions_unfold)

lemma assignPositions_other:
  "widths_ok widths t \<Longrightarrow> v \<notin> values_of t \<Longrightarrow>
   assignPositions t (Some d) (Some b) widths positions v = positions v"
proof (induction t arbitrary: d b positions)
  case Null
  show ?case by simp
next
  case (BSTNode x l r)
  from BSTNode.prems(1) have "widths_ok widths l" "widths_ok widths r"
    using widths_ok_children by blast+
  with BSTNode show ?case by (simp add: assignPositions_step)
qed

lemma assignPositions_dom:
  "widths_ok widths t \<Longrightarrow>
   dom (assignPositions t (Some d) (Some b) widths positions) = dom positions \<union> values_of t"
proof (induction t arbitrary: d b positions)
  case Null
  show ?case by simp
next
  case (BSTNode x l r)
  from BSTNode.prems(1) have "widths_ok widths l" "widths_ok widths r"
    using widths_ok_children by blast+
  with BSTNode show ?case by (auto simp: assignPositions_step)
qed

subsection \<open>Where the position pass places the nodes\<close>

lemma placements_node:
  "(n, d', b') \<in> set (placements t d b) \<Longrightarrow> n \<noteq> Null \<and> val n \<in> values_of t"
  by (induction t arbitrary: d b) auto

lemma assignPositions_placed:
  "bst t \<Longrightarrow> widths_ok widths t \<Longrightarrow> (n, d', b') \<in> set (placements t d b) \<Longrightarrow>
   assignPositions t (Some d) (Some b) widths positions (val n) =
     Some \<lparr> pos_x = Some (PADDING + (b' + width (left n)) * HORIZONTAL_SPACING),
            pos_y = Some (PADDING + d' * VERTICAL_SPACING),
            pos_node = n \<rparr>"
proof (induction t arbitrary: d b positions)
  case Null
  then show ?case by simp
next
  case (BSTNode x l r)
  from BSTNode.prems(2) have wl: "widths_ok widths l" and wr: "widths_ok widths r"
    using widths_ok_children by blast+
  from BSTNode.prems(1) have bl: "bst l" and br: "bst r"
    and lx: "\<forall>y \<in> values_of l. y < x" and xr: "\<forall>y \<in> values_of r. x < y" by simp_all
  let ?P1 = "positions(x \<mapsto>
             \<lparr> pos_x = Some (PADDING + (b + width l) * HORIZONTAL_SPACING),
               pos_y = Some (PADDING + d * VERTICAL_SPACING),
               pos_node = BSTNode x l r \<rparr>)"
  let ?P2 = "assignPositions l (Some (d + 1)) (Some b) widths ?P1"
  have step: "assignPositions (BSTNode x l r) (Some d) (Some b) widths positions =
      assignPositions r (Some (d + 1)) (Some (b + width l + 1)) widths ?P2"
    using BSTNode.prems(2) by (rule assignPositions_step)
  from BSTNode.prems(3) consider
      (root) "n = BSTNode x l r" "d' = d" "b' = b"
    | (inl) "(n, d', b') \<in> set (placements l (d + 1) b)"
    | (inr) "(n, d', b') \<in> set (placements r (d + 1) (b + width l + 1))"
    by auto
  then show ?case
  proof cases
    case root
    from lx xr have "x \<notin> values_of l" "x \<notin> values_of r" by auto
    with root wl wr show ?thesis
      by (simp add: step assignPositions_other)
  next
    case inl
    then have "val n \<in> values_of l" using placements_node by blast
    with xr lx have "val n \<notin> values_of r" by fastforce
    with wr have "assignPositions r (Some (d + 1)) (Some (b + width l + 1)) widths ?P2 (val n)
        = ?P2 (val n)" by (simp add: assignPositions_other)
    with BSTNode.IH(1) [OF bl wl inl] show ?thesis by (simp add: step)
  next
    case inr
    with BSTNode.IH(2) [OF br wr inr] show ?thesis by (simp add: step)
  qed
qed


lemma computePositions_eq:
  "t \<noteq> Null \<Longrightarrow>
   computePositions t =
     assignPositions t (Some 0) (Some 0) (snd (calculateWidths t Map.empty)) Map.empty"
  by (simp add: computePositions_def case_prod_beta)

lemma calculateWidths_ok: "widths_ok (snd (calculateWidths t w)) t"
  by (simp add: widths_ok_def calculateWidths_snd)

lemma placements_sub:
  "(n, d', b') \<in> set (placements t d b) \<Longrightarrow> set (placements n d' b') \<subseteq> set (placements t d b)"
proof (induction t arbitrary: d b)
  case Null
  then show ?case by simp
next
  case (BSTNode x l r)
  from BSTNode.prems consider
      (root) "n = BSTNode x l r" "d' = d" "b' = b"
    | (inl) "(n, d', b') \<in> set (placements l (d + 1) b)"
    | (inr) "(n, d', b') \<in> set (placements r (d + 1) (b + width l + 1))"
    by auto
  then show ?case
  proof cases
    case root
    then show ?thesis by simp
  next
    case inl
    from BSTNode.IH(1) [OF inl] show ?thesis by auto
  next
    case inr
    from BSTNode.IH(2) [OF inr] show ?thesis by auto
  qed
qed

lemma placements_range:
  "(n, d', b') \<in> set (placements t d b) \<Longrightarrow> b \<le> b' \<and> b' + width n \<le> b + width t"
proof (induction t arbitrary: d b)
  case Null
  then show ?case by simp
next
  case (BSTNode x l r)
  from BSTNode.prems consider
      (root) "n = BSTNode x l r" "d' = d" "b' = b"
    | (inl) "(n, d', b') \<in> set (placements l (d + 1) b)"
    | (inr) "(n, d', b') \<in> set (placements r (d + 1) (b + width l + 1))"
    by auto
  then show ?case
  proof cases
    case root
    then show ?thesis by simp
  next
    case inl
    from BSTNode.IH(1) [OF inl] show ?thesis by simp
  next
    case inr
    from BSTNode.IH(2) [OF inr] show ?thesis by simp
  qed
qed

lemma placements_value:
  "v \<in> values_of t \<Longrightarrow> \<exists>n d' b'. (n, d', b') \<in> set (placements t d b) \<and> val n = v"
proof (induction t arbitrary: d b)
  case Null
  then show ?case by simp
next
  case (BSTNode x l r)
  from BSTNode.prems consider (root) "v = x" | (inl) "v \<in> values_of l" | (inr) "v \<in> values_of r"
    by auto
  then show ?case
  proof cases
    case root
    then have "(BSTNode x l r, d, b) \<in> set (placements (BSTNode x l r) d b) \<and>
        val (BSTNode x l r) = v" by simp
    then show ?thesis by blast
  next
    case inl
    from BSTNode.IH(1) [OF inl, of "d + 1" b] obtain n d' b'
      where "(n, d', b') \<in> set (placements l (d + 1) b)" "val n = v" by blast
    then have "(n, d', b') \<in> set (placements (BSTNode x l r) d b) \<and> val n = v" by simp
    then show ?thesis by blast
  next
    case inr
    from BSTNode.IH(2) [OF inr, of "d + 1" "b + width l + 1"] obtain n d' b'
      where "(n, d', b') \<in> set (placements r (d + 1) (b + width l + 1))" "val n = v" by blast
    then have "(n, d', b') \<in> set (placements (BSTNode x l r) d b) \<and> val n = v" by simp
    then show ?thesis by blast
  qed
qed

lemma placements_children:
  "(n, d', b') \<in> set (placements t d b) \<Longrightarrow>
   (left n \<noteq> Null \<longrightarrow> (left n, d' + 1, b') \<in> set (placements t d b)) \<and>
   (right n \<noteq> Null \<longrightarrow> (right n, d' + 1, b' + width (left n) + 1) \<in> set (placements t d b))"
proof -
  assume a: "(n, d', b') \<in> set (placements t d b)"
  then have "n \<noteq> Null" using placements_node by blast
  then obtain x l r where n: "n = BSTNode x l r" by (cases n) simp_all
  have "l \<noteq> Null \<Longrightarrow> (l, d' + 1, b') \<in> set (placements n d' b')"
    unfolding n by (cases l) simp_all
  moreover have "r \<noteq> Null \<Longrightarrow> (r, d' + 1, b' + width l + 1) \<in> set (placements n d' b')"
    unfolding n by (cases r) simp_all
  ultimately show ?thesis using placements_sub [OF a] n by auto
qed

lemma placements_subtree: "(n, d', b') \<in> set (placements t d b) \<Longrightarrow> n \<in> subtrees t"
  by (induction t arbitrary: d b) auto

lemma length_inorder_width: "length (inorder_values t) = width t"
  by (induction t) simp_all

lemma placements_rank:
  "i < width t \<Longrightarrow>
   \<exists>n d' b'. (n, d', b') \<in> set (placements t d b) \<and> val n = inorder_values t ! i \<and>
     b' + width (left n) = b + i"
proof (induction t arbitrary: d b i)
  case Null
  then show ?case by simp
next
  case (BSTNode x l r)
  consider (lt) "i < width l" | (eq) "i = width l" | (gt) "width l < i" by linarith
  then show ?case
  proof cases
    case lt
    from BSTNode.IH(1) [OF lt, of "d + 1" b] obtain n d' b'
      where "(n, d', b') \<in> set (placements l (d + 1) b)" "val n = inorder_values l ! i"
        "b' + width (left n) = b + i" by blast
    with lt have "(n, d', b') \<in> set (placements (BSTNode x l r) d b) \<and>
        val n = inorder_values (BSTNode x l r) ! i \<and> b' + width (left n) = b + i"
      by (simp add: nth_append length_inorder_width)
    then show ?thesis by blast
  next
    case eq
    then have "(BSTNode x l r, d, b) \<in> set (placements (BSTNode x l r) d b) \<and>
        val (BSTNode x l r) = inorder_values (BSTNode x l r) ! i \<and>
        b + width (left (BSTNode x l r)) = b + i"
      by (simp add: nth_append length_inorder_width)
    then show ?thesis by blast
  next
    case gt
    with BSTNode.prems have j: "i - width l - 1 < width r" by simp
    from BSTNode.IH(2) [OF j, of "d + 1" "b + width l + 1"] obtain n d' b'
      where "(n, d', b') \<in> set (placements r (d + 1) (b + width l + 1))"
        "val n = inorder_values r ! (i - width l - 1)"
        "b' + width (left n) = b + width l + 1 + (i - width l - 1)" by blast
    with gt have "(n, d', b') \<in> set (placements (BSTNode x l r) d b) \<and>
        val n = inorder_values (BSTNode x l r) ! i \<and> b' + width (left n) = b + i"
      by (simp add: nth_append length_inorder_width nth_Cons')
    then show ?thesis by blast
  qed
qed

lemma column_placed:
  "positions v = Some \<lparr> pos_x = Some (PADDING + c * HORIZONTAL_SPACING), pos_y = yy, pos_node = n \<rparr>
   \<Longrightarrow> column positions v = Some c"
  by (simp add: column_def HORIZONTAL_SPACING_def)

lemma placements_preorder:
  "map (\<lambda>(n, d', b'). val n) (placements t d b) = preorder_values t"
  by (induction t arbitrary: d b) simp_all


lemma computePositions_placed:
  assumes "bst t" "(n, d, b) \<in> set (placements t 0 0)"
  shows "computePositions t (val n) =
     Some \<lparr> pos_x = Some (PADDING + (b + width (left n)) * HORIZONTAL_SPACING),
            pos_y = Some (PADDING + d * VERTICAL_SPACING),
            pos_node = n \<rparr>"
proof -
  from assms(2) have "t \<noteq> Null" by auto
  then show ?thesis
    using assignPositions_placed [OF assms(1) calculateWidths_ok assms(2)]
    by (simp add: computePositions_eq)
qed

lemma computePositions_column:
  "bst t \<Longrightarrow> (n, d, b) \<in> set (placements t 0 0) \<Longrightarrow>
   column (computePositions t) (val n) = Some (b + width (left n))"
  by (rule column_placed) (rule computePositions_placed)

lemma computePositions_dom: "dom (computePositions t) = values_of t"
proof (cases "t = Null")
  case True
  then show ?thesis by (simp add: computePositions_def)
next
  case False
  then show ?thesis
    using assignPositions_dom [where widths = "snd (calculateWidths t Map.empty)" and t = t
        and d = 0 and b = 0 and positions = Map.empty] calculateWidths_ok
    by (simp add: computePositions_eq)
qed

lemma width_left_less: "n \<noteq> Null \<Longrightarrow> width (left n) < width n"
  by (cases n) simp_all

lemma width_children: "n \<noteq> Null \<Longrightarrow> width n = width (left n) + 1 + width (right n)"
  by (cases n) simp_all

lemma computePositions_range:
  assumes "bst t" "(m, dm, bm) \<in> set (placements t 0 0)" "u \<in> values_of m"
  shows "\<exists>c. column (computePositions t) u = Some c \<and> bm \<le> c \<and> c < bm + width m"
proof -
  from placements_value [OF assms(3), of dm bm] obtain k dk bk
    where k: "(k, dk, bk) \<in> set (placements m dm bm)" and u: "val k = u" by blast
  from k placements_sub [OF assms(2)] have kt: "(k, dk, bk) \<in> set (placements t 0 0)" by blast
  from k have kn: "k \<noteq> Null" using placements_node by blast
  from placements_range [OF k] have r: "bm \<le> bk" "bk + width k \<le> bm + width m" by simp_all
  from computePositions_column [OF assms(1) kt] u
  have "column (computePositions t) u = Some (bk + width (left k))" by simp
  moreover from r width_left_less [OF kn]
  have "bm \<le> bk + width (left k) \<and> bk + width (left k) < bm + width m" by simp
  ultimately show ?thesis by blast
qed

lemma computePositions_rank:
  assumes "bst t"
  shows "map (column (computePositions t)) (inorder_values t) = map Some [0..<length (inorder_values t)]"
proof (rule nth_equalityI)
  show "length (map (column (computePositions t)) (inorder_values t))
      = length (map Some [0..<length (inorder_values t)])" by simp
next
  fix i
  assume "i < length (map (column (computePositions t)) (inorder_values t))"
  then have i: "i < width t" by (simp add: length_inorder_width)
  from placements_rank [OF i, of 0 0] obtain n d b
    where n: "(n, d, b) \<in> set (placements t 0 0)" and v: "val n = inorder_values t ! i"
      and c: "b + width (left n) = i" by auto
  from computePositions_column [OF assms n] v c
  have "column (computePositions t) (inorder_values t ! i) = Some i" by simp
  with i show "map (column (computePositions t)) (inorder_values t) ! i
      = map Some [0..<length (inorder_values t)] ! i"
    by (simp add: length_inorder_width)
qed

subsection \<open>The claim about the layout\<close>

text \<open>
  C7. On a search tree (values are the keys of the position map, and the trees that
  \<^verbatim>\<open>insert\<close> builds are search trees) the width pass computes
  \<open>width(node) = width(left) + 1 + width(right)\<close> for the tree and stores it for every
  node, and \<^verbatim>\<open>computePositions\<close> maps the value of every node, reached by the position
  pass at \<open>depth\<close> and \<open>leftBound\<close>, to
  \<open>x = PADDING + (leftBound + width(left)) * HORIZONTAL_SPACING\<close> and
  \<open>y = PADDING + depth * VERTICAL_SPACING\<close>, and maps nothing else. These depend on the
  shape of the tree only. The columns of the values in in-order are 0, 1, 2, ..., so every
  node has its own column, its in-order rank. At every node the columns of the left
  subtree lie in the \<open>width(left)\<close> columns from the node's left bound, the node's column
  comes next, and the columns of the right subtree lie after it, so sibling subtrees
  never share a column. For the empty tree the position map and the edge list are
  empty.
\<close>

theorem layout_positions:
  assumes "bst t"
  shows "fst (calculateWidths t Map.empty) = width t \<and>
    map (\<lambda>(n, d, b). val n) (placements t 0 0) = preorder_values t \<and>
    (\<forall>(n, d, b) \<in> set (placements t 0 0).
       snd (calculateWidths t Map.empty) n = Some (width n) \<and>
       computePositions t (val n) =
         Some \<lparr> pos_x = Some (PADDING + (b + width (left n)) * HORIZONTAL_SPACING),
                pos_y = Some (PADDING + d * VERTICAL_SPACING),
                pos_node = n \<rparr>) \<and>
    dom (computePositions t) = values_of t \<and>
    map (column (computePositions t)) (inorder_values t)
      = map Some [0..<length (inorder_values t)] \<and>
    (\<forall>(n, d, b) \<in> set (placements t 0 0).
       (\<forall>u \<in> values_of (left n).
          \<exists>c. column (computePositions t) u = Some c \<and> b \<le> c \<and> c < b + width (left n)) \<and>
       column (computePositions t) (val n) = Some (b + width (left n)) \<and>
       (\<forall>v \<in> values_of (right n).
          \<exists>c. column (computePositions t) v = Some c \<and>
              b + width (left n) < c \<and> c < b + width n)) \<and>
    computePositions Null = Map.empty \<and>
    collectEdges Null (computePositions Null) = []"
proof -
  have 1: "fst (calculateWidths t Map.empty) = width t" by (rule calculateWidths_fst)
  have 2: "map (\<lambda>(n, d, b). val n) (placements t 0 0) = preorder_values t"
    by (rule placements_preorder)
  have 3: "\<forall>(n, d, b) \<in> set (placements t 0 0).
       snd (calculateWidths t Map.empty) n = Some (width n) \<and>
       computePositions t (val n) =
         Some \<lparr> pos_x = Some (PADDING + (b + width (left n)) * HORIZONTAL_SPACING),
                pos_y = Some (PADDING + d * VERTICAL_SPACING),
                pos_node = n \<rparr>"
  proof (intro ballI, clarify, intro conjI)
    fix n d b
    assume a: "(n, d, b) \<in> set (placements t 0 0)"
    from placements_sub [OF a] a have "n \<in> subtrees t"
      using placements_subtree by blast
    then show "snd (calculateWidths t Map.empty) n = Some (width n)"
      by (simp add: calculateWidths_snd)
    from a show "computePositions t (val n) =
         Some \<lparr> pos_x = Some (PADDING + (b + width (left n)) * HORIZONTAL_SPACING),
                pos_y = Some (PADDING + d * VERTICAL_SPACING),
                pos_node = n \<rparr>"
      by (rule computePositions_placed [OF assms])
  qed
  have 4: "dom (computePositions t) = values_of t" by (rule computePositions_dom)
  have 5: "map (column (computePositions t)) (inorder_values t)
      = map Some [0..<length (inorder_values t)]"
    by (rule computePositions_rank [OF assms])
  have 6: "\<forall>(n, d, b) \<in> set (placements t 0 0).
       (\<forall>u \<in> values_of (left n).
          \<exists>c. column (computePositions t) u = Some c \<and> b \<le> c \<and> c < b + width (left n)) \<and>
       column (computePositions t) (val n) = Some (b + width (left n)) \<and>
       (\<forall>v \<in> values_of (right n).
          \<exists>c. column (computePositions t) v = Some c \<and>
              b + width (left n) < c \<and> c < b + width n)"
  proof (intro ballI, clarify, intro conjI ballI)
    fix n d b u
    assume a: "(n, d, b) \<in> set (placements t 0 0)" and u: "u \<in> values_of (left n)"
    then have "left n \<noteq> Null" by auto
    with placements_children [OF a] have "(left n, d + 1, b) \<in> set (placements t 0 0)" by simp
    from computePositions_range [OF assms this u]
    show "\<exists>c. column (computePositions t) u = Some c \<and> b \<le> c \<and> c < b + width (left n)" .
  next
    fix n d b
    assume a: "(n, d, b) \<in> set (placements t 0 0)"
    then show "column (computePositions t) (val n) = Some (b + width (left n))"
      by (rule computePositions_column [OF assms])
  next
    fix n d b v
    assume a: "(n, d, b) \<in> set (placements t 0 0)" and v: "v \<in> values_of (right n)"
    then have "right n \<noteq> Null" by auto
    with placements_children [OF a]
    have "(right n, d + 1, b + width (left n) + 1) \<in> set (placements t 0 0)" by simp
    from computePositions_range [OF assms this v] obtain c
      where c: "column (computePositions t) v = Some c" "b + width (left n) + 1 \<le> c"
        "c < b + width (left n) + 1 + width (right n)" by blast
    from a have "n \<noteq> Null" using placements_node by blast
    from width_children [OF this] c
    have "column (computePositions t) v = Some c \<and> b + width (left n) < c \<and> c < b + width n"
      by simp
    then show "\<exists>c. column (computePositions t) v = Some c \<and>
              b + width (left n) < c \<and> c < b + width n" by blast
  qed
  have 7: "computePositions Null = Map.empty \<and> collectEdges Null (computePositions Null) = []"
    by (simp add: computePositions_def collectEdges_def)
  from 1 2 3 4 5 6 7 show ?thesis by blast
qed


theorem layout_positions_witness:
  "computePositions (BSTNode 50 (BSTNode 30 Null Null) (BSTNode 70 Null Null)) 50
     = Some \<lparr> pos_x = Some 110, pos_y = Some 50,
              pos_node = BSTNode 50 (BSTNode 30 Null Null) (BSTNode 70 Null Null) \<rparr> \<and>
   computePositions (BSTNode 50 (BSTNode 30 Null Null) (BSTNode 70 Null Null)) 30
     = Some \<lparr> pos_x = Some 50, pos_y = Some 130, pos_node = BSTNode 30 Null Null \<rparr> \<and>
   computePositions (BSTNode 50 (BSTNode 30 Null Null) (BSTNode 70 Null Null)) 70
     = Some \<lparr> pos_x = Some 170, pos_y = Some 130, pos_node = BSTNode 70 Null Null \<rparr> \<and>
   map (column (computePositions (BSTNode 50 (BSTNode 30 Null Null) (BSTNode 70 Null Null))))
     [30, 50, 70] = [Some 0, Some 1, Some 2] \<and>
   dom (computePositions (BSTNode 50 (BSTNode 30 Null Null) (BSTNode 70 Null Null))) = {30, 50, 70}"
proof -
  have b: "bst (BSTNode 50 (BSTNode 30 Null Null) (BSTNode 70 Null Null))" by simp
  show ?thesis
    using layout_positions [OF b]
    by (simp add: PADDING_def HORIZONTAL_SPACING_def VERTICAL_SPACING_def insert_commute)
qed


end
